theory Spec2Isabelle
  imports Main "HOL-Library.Sublist" "HOL-Library.Word"
begin

section \<open>Data model of the trade store\<close>

text \<open>
  \<open>time.Time\<close> values are opaque instants. Every \<open>time.Now()\<close> of the source becomes an
  explicit argument of the function that reads the clock, in the order of the reads.
\<close>

type_synonym time = nat

text \<open>The struct \<open>Trade\<close>: all payload fields are strings, as in the source.\<close>

record Trade =
  Timestamp :: time
  Symbol :: string
  Price :: string
  Size :: string
  Time :: string
  Aggressor :: string
  MdReqId :: string
  EntryType :: string
  Position :: string
  SeqNum :: string
  IsSnapshot :: bool
  IsUpdate :: bool

text \<open>The zero value of \<open>Trade\<close>, which fills a slice made by \<open>make([]Trade, n)\<close>.\<close>

definition zeroTrade :: Trade where
  "zeroTrade = \<lparr>Timestamp = 0, Symbol = [], Price = [], Size = [], Time = [],
     Aggressor = [], MdReqId = [], EntryType = [], Position = [], SeqNum = [],
     IsSnapshot = False, IsUpdate = False\<rparr>"

text \<open>
  The struct \<open>Subscription\<close>. Its fields \<open>Symbol\<close> and \<open>MdReqId\<close> are written
  \<open>SubSymbol\<close> and \<open>SubMdReqId\<close> here, the plain names being fields of \<open>Trade\<close>.
  \<open>TotalUpdates\<close> is an \<open>int64\<close>.
\<close>

record Subscription =
  LastUpdate :: time
  TotalUpdates :: "64 word"
  SubSymbol :: string
  SubscriptionType :: string
  SubMdReqId :: string
  Active :: bool
  SnapshotReceived :: bool

text \<open>
  The struct \<open>TradeStore\<close> without its lock. \<open>head\<close>, \<open>count\<close> and \<open>maxSize\<close> are
  Go \<open>int\<close>s that the code only ever sets to non-negative values below the length of an
  allocated slice (a negative \<open>maxSize\<close> makes \<open>make\<close> panic in \<open>NewTradeStore\<close>), so
  they are naturals here and \<open>head + count\<close> cannot overflow. \<open>updateCount\<close> is an
  \<open>int64\<close>. The map holds pointers to subscriptions which never leave the store, so it
  is a map to values.
\<close>

record TradeStore =
  trades :: "Trade list"
  head :: nat
  count :: nat
  subscriptions :: "string \<rightharpoonup> Subscription"
  updateCount :: "64 word"
  maxSize :: nat

text \<open>The run-time panics the modelled code can raise.\<close>

datatype panic = MakeSliceLenOutOfRange | IntegerDivideByZero | IndexOutOfRange

section \<open>The ring buffer store\<close>

text \<open>\<open>NewTradeStore\<close>: \<open>make\<close> panics on a negative length.\<close>

definition NewTradeStore :: "int \<Rightarrow> string \<Rightarrow> panic + TradeStore" where
  "NewTradeStore maxSize' persistenceFile =
     (if maxSize' < 0 then Inl MakeSliceLenOutOfRange
      else Inr \<lparr>trades = replicate (nat maxSize') zeroTrade, head = 0, count = 0,
                subscriptions = Map.empty, updateCount = 0, maxSize = nat maxSize'\<rparr>)"

text \<open>
  The five field assignments at the top of the loop body of \<open>AddTrades\<close>, on the
  loop's copy of the record.
\<close>

definition stampTrade :: "time \<Rightarrow> string \<Rightarrow> string \<Rightarrow> bool \<Rightarrow> Trade \<Rightarrow> Trade" where
  "stampTrade now symbol mdReqId isSnapshot trade =
     trade\<lparr>Timestamp := now, Symbol := symbol, MdReqId := mdReqId,
            IsSnapshot := isSnapshot, IsUpdate := \<not> isSnapshot\<rparr>"

text \<open>
  The rest of the loop body: the write into the ring, then the update of \<open>count\<close> or
  \<open>head\<close>, then \<open>updateCount++\<close>. The remainder by zero and the out-of-range write are
  the panics Go raises.
\<close>

definition insertTrade :: "TradeStore \<Rightarrow> Trade \<Rightarrow> panic + TradeStore" where
  "insertTrade ts trade =
     (if maxSize ts = 0 then Inl IntegerDivideByZero
      else
        let writeIdx = (head ts + count ts) mod maxSize ts in
        if length (trades ts) \<le> writeIdx then Inl IndexOutOfRange
        else
          let ts1 = ts\<lparr>trades := (trades ts)[writeIdx := trade]\<rparr>;
              ts2 = (if count ts1 < maxSize ts1 then ts1\<lparr>count := count ts1 + 1\<rparr>
                     else ts1\<lparr>head := (head ts1 + 1) mod maxSize ts1\<rparr>)
          in Inr (ts2\<lparr>updateCount := updateCount ts2 + 1\<rparr>))"

text \<open>The \<open>for _, trade := range trades\<close> loop of \<open>AddTrades\<close>.\<close>

fun addLoop :: "time \<Rightarrow> string \<Rightarrow> string \<Rightarrow> bool \<Rightarrow> TradeStore \<Rightarrow> Trade list
    \<Rightarrow> panic + TradeStore" where
  "addLoop now symbol mdReqId isSnapshot ts [] = Inr ts"
| "addLoop now symbol mdReqId isSnapshot ts (trade # rest) =
     (case insertTrade ts (stampTrade now symbol mdReqId isSnapshot trade) of
        Inl e \<Rightarrow> Inl e
      | Inr ts' \<Rightarrow> addLoop now symbol mdReqId isSnapshot ts' rest)"

text \<open>The subscription bookkeeping at the top of \<open>AddTrades\<close>; \<open>subNow\<close> is its clock read.\<close>

definition touchSubscription :: "time \<Rightarrow> nat \<Rightarrow> bool \<Rightarrow> Subscription \<Rightarrow> Subscription" where
  "touchSubscription subNow n isSnapshot sub =
     (let sub1 = sub\<lparr>LastUpdate := subNow\<rparr>;
          sub2 = sub1\<lparr>TotalUpdates := TotalUpdates sub1 + of_nat n\<rparr>
      in if isSnapshot then sub2\<lparr>SnapshotReceived := True\<rparr> else sub2)"

text \<open>
  \<open>AddTrades\<close>. The two clock reads are \<open>subNow\<close> (only made when the request id is
  registered) and \<open>now\<close>.
\<close>

definition AddTrades :: "time \<Rightarrow> time \<Rightarrow> TradeStore \<Rightarrow> string \<Rightarrow> Trade list \<Rightarrow> bool \<Rightarrow> string
    \<Rightarrow> panic + TradeStore" where
  "AddTrades subNow now ts symbol trades' isSnapshot mdReqId =
     (let ts1 = (case subscriptions ts mdReqId of
                   None \<Rightarrow> ts
                 | Some sub \<Rightarrow> ts\<lparr>subscriptions := (subscriptions ts)
                       (mdReqId \<mapsto> touchSubscription subNow (length trades') isSnapshot sub)\<rparr>)
      in addLoop now symbol mdReqId isSnapshot ts1 trades')"

text \<open>\<open>AddSubscription\<close>; the log line it prints is not part of the state.\<close>

definition AddSubscription :: "time \<Rightarrow> TradeStore \<Rightarrow> string \<Rightarrow> string \<Rightarrow> string \<Rightarrow> TradeStore" where
  "AddSubscription now ts symbol subscriptionType mdReqId =
     ts\<lparr>subscriptions := (subscriptions ts)(mdReqId \<mapsto>
          \<lparr>LastUpdate = now, TotalUpdates = 0, SubSymbol = symbol,
           SubscriptionType = subscriptionType, SubMdReqId = mdReqId,
           Active = True, SnapshotReceived = False\<rparr>)\<rparr>"

text \<open>
  \<open>GetAllTrades\<close>: \<open>None\<close> is the nil slice. The loop reads slot \<open>(head + i) % maxSize\<close>
  for \<open>i = 0 .. count - 1\<close>; \<open>readSlot\<close> is one such read with its panics.
\<close>

definition readSlot :: "TradeStore \<Rightarrow> nat \<Rightarrow> panic + Trade" where
  "readSlot ts k =
     (if maxSize ts = 0 then Inl IntegerDivideByZero
      else let idx = k mod maxSize ts in
        if length (trades ts) \<le> idx then Inl IndexOutOfRange
        else Inr (trades ts ! idx))"

fun copyLoop :: "TradeStore \<Rightarrow> nat list \<Rightarrow> Trade list \<Rightarrow> panic + Trade list" where
  "copyLoop ts [] result = Inr result"
| "copyLoop ts (i # is) result =
     (case readSlot ts (head ts + i) of
        Inl e \<Rightarrow> Inl e
      | Inr t \<Rightarrow> copyLoop ts is (result[i := t]))"

definition GetAllTrades :: "TradeStore \<Rightarrow> panic + Trade list option" where
  "GetAllTrades ts =
     (if count ts = 0 then Inr None
      else (case copyLoop ts [0..<count ts] (replicate (count ts) zeroTrade) of
              Inl e \<Rightarrow> Inl e
            | Inr result \<Rightarrow> Inr (Some result)))"

text \<open>
  \<open>GetRecentTrades\<close>. Both passes read slot \<open>(head + count - 1 - i) % maxSize\<close> under the
  guard \<open>i < count\<close>, so the subtraction never goes below zero. \<open>limit\<close> is a Go
  \<open>int\<close> and may be zero or negative; \<open>resultIdx\<close> runs down to \<open>-1\<close>.
\<close>

function countMatches :: "TradeStore \<Rightarrow> string \<Rightarrow> int \<Rightarrow> nat \<Rightarrow> nat \<Rightarrow> panic + nat" where
  "countMatches ts symbol limit i matchCount =
     (if i < count ts \<and> int matchCount < limit then
        (case readSlot ts (head ts + count ts - 1 - i) of
           Inl e \<Rightarrow> Inl e
         | Inr t \<Rightarrow> countMatches ts symbol limit (i + 1)
                     (if Symbol t = symbol then matchCount + 1 else matchCount))
      else Inr matchCount)"
  by pat_completeness auto
termination
  by (relation "measure (\<lambda>(ts, symbol, limit, i, matchCount). count ts - i)") auto

function fillRecent :: "TradeStore \<Rightarrow> string \<Rightarrow> nat \<Rightarrow> int \<Rightarrow> Trade list \<Rightarrow> panic + Trade list" where
  "fillRecent ts symbol i resultIdx recent =
     (if i < count ts \<and> 0 \<le> resultIdx then
        (case readSlot ts (head ts + count ts - 1 - i) of
           Inl e \<Rightarrow> Inl e
         | Inr t \<Rightarrow>
             if Symbol t = symbol then
               (if int (length recent) \<le> resultIdx then Inl IndexOutOfRange
                else fillRecent ts symbol (i + 1) (resultIdx - 1) (recent[nat resultIdx := t]))
             else fillRecent ts symbol (i + 1) resultIdx recent)
      else Inr recent)"
  by pat_completeness auto
termination
  by (relation "measure (\<lambda>(ts, symbol, i, resultIdx, recent). count ts - i)") auto

definition GetRecentTrades :: "TradeStore \<Rightarrow> string \<Rightarrow> int \<Rightarrow> panic + Trade list option" where
  "GetRecentTrades ts symbol limit =
     (if count ts = 0 then Inr None
      else (case countMatches ts symbol limit 0 0 of
              Inl e \<Rightarrow> Inl e
            | Inr matchCount \<Rightarrow>
                if matchCount = 0 then Inr None
                else (case fillRecent ts symbol 0 (int matchCount - 1)
                             (replicate matchCount zeroTrade) of
                        Inl e \<Rightarrow> Inl e
                      | Inr recent \<Rightarrow> Inr (Some recent))))"

section \<open>The market data parser\<close>

text \<open>
  A Go string is a sequence of bytes: \<open>string\<close> is \<open>char list\<close> and \<open>len\<close> is \<open>length\<close>.
  The field delimiter SOH is the byte \<open>0x01\<close>.
\<close>

definition SOH :: char where
  "SOH = CHR 0x01"

text \<open>
  Go's \<open>strings.Index(s, substr)\<close>: the offset of the first instance of \<open>substr\<close> in
  \<open>s\<close>; \<open>None\<close> is Go's \<open>-1\<close>.
\<close>

fun Index :: "string \<Rightarrow> string \<Rightarrow> nat option" where
  "Index [] substr = (if substr = [] then Some 0 else None)"
| "Index (c # s) substr =
     (if prefix substr (c # s) then Some 0 else map_option Suc (Index s substr))"

text \<open>Go's \<open>strings.IndexByte(s, c)\<close>, with \<open>None\<close> for \<open>-1\<close>.\<close>

fun IndexByte :: "string \<Rightarrow> char \<Rightarrow> nat option" where
  "IndexByte [] c = None"
| "IndexByte (x # s) c = (if x = c then Some 0 else map_option Suc (IndexByte s c))"

text \<open>
  Go's \<open>strings.Count(s, substr)\<close> for a non-empty \<open>substr\<close>: the number of
  non-overlapping instances, found from left to right. For the empty \<open>substr\<close> Go
  returns the number of code points plus one, which is \<open>length s + 1\<close> on ASCII text; the
  code never asks for it.
\<close>

function Count :: "string \<Rightarrow> string \<Rightarrow> nat" where
  "Count s substr =
     (if substr = [] then length s + 1
      else (case Index s substr of
              None \<Rightarrow> 0
            | Some i \<Rightarrow> 1 + Count (drop (i + length substr) s) substr))"
  by pat_completeness auto
termination
proof (relation "measure (\<lambda>(s, substr). length s)")
  show "wf (measure (\<lambda>(s, substr). length s))" by simp
next
  fix s substr :: string and i :: nat
  assume ne: "substr \<noteq> []" and ix: "Index s substr = Some i"
  have "s \<noteq> []" using ne ix by (cases s) auto
  then show "((drop (i + length substr) s, substr), (s, substr))
      \<in> measure (\<lambda>(s, substr). length s)"
    using ne by simp
qed

text \<open>
  The slice expressions \<open>s[lo:hi]\<close> and \<open>s[lo:]\<close>. Every slice the parser takes has
  \<open>lo \<le> hi \<le> len(s)\<close>: its bounds are offsets that \<open>Index\<close> and \<open>IndexByte\<close> have just
  found in \<open>s\<close>.
\<close>

definition sliceRange :: "string \<Rightarrow> nat \<Rightarrow> nat \<Rightarrow> string" where
  "sliceRange s lo hi = drop lo (take hi s)"

definition sliceFrom :: "string \<Rightarrow> nat \<Rightarrow> string" where
  "sliceFrom s lo = drop lo s"

text \<open>\<open>extractSingleFieldValue\<close>.\<close>

definition extractSingleFieldValue :: "string \<Rightarrow> string \<Rightarrow> string" where
  "extractSingleFieldValue fixSegment tagPrefix =
     (case Index fixSegment tagPrefix of
        None \<Rightarrow> []
      | Some start0 \<Rightarrow>
          let start = start0 + length tagPrefix in
          (case Index (sliceFrom fixSegment start) [SOH] of
             None \<Rightarrow> sliceFrom fixSegment start
           | Some end' \<Rightarrow> sliceRange fixSegment start (start + end')))"

text \<open>
  \<open>findEntryBoundaries\<close>: the counting pre-pass, then the loop that collects the offsets.
  \<open>None\<close> is the nil slice.
\<close>

function collectEntryStarts :: "string \<Rightarrow> nat \<Rightarrow> nat list \<Rightarrow> nat list" where
  "collectEntryStarts rawMsg searchFrom entryStarts =
     (case Index (sliceFrom rawMsg searchFrom) ''269='' of
        None \<Rightarrow> entryStarts
      | Some pos \<Rightarrow>
          collectEntryStarts rawMsg (searchFrom + (pos + 4)) (entryStarts @ [searchFrom + pos]))"
  by pat_completeness auto
termination
proof (relation "measure (\<lambda>(rawMsg, searchFrom, entryStarts). length rawMsg - searchFrom)")
  show "wf (measure (\<lambda>(rawMsg, searchFrom, entryStarts). length rawMsg - searchFrom))"
    by simp
next
  fix rawMsg :: string and searchFrom pos :: nat and entryStarts :: "nat list"
  assume ix: "Index (sliceFrom rawMsg searchFrom) ''269='' = Some pos"
  have "sliceFrom rawMsg searchFrom \<noteq> []" using ix by (cases "sliceFrom rawMsg searchFrom") auto
  then have "searchFrom < length rawMsg" by (simp add: sliceFrom_def)
  then show "((rawMsg, searchFrom + (pos + 4), entryStarts @ [searchFrom + pos]),
       (rawMsg, searchFrom, entryStarts))
      \<in> measure (\<lambda>(rawMsg, searchFrom, entryStarts). length rawMsg - searchFrom)"
    by simp
qed

definition findEntryBoundaries :: "string \<Rightarrow> nat list option" where
  "findEntryBoundaries rawMsg =
     (if Count rawMsg ''269='' = 0 then None
      else Some (collectEntryStarts rawMsg 0 []))"

text \<open>\<open>getAggressorSideDesc\<close> (display.go).\<close>

definition getAggressorSideDesc :: "string \<Rightarrow> string" where
  "getAggressorSideDesc side =
     (if side = ''1'' then ''Buy'' else if side = ''2'' then ''Sell'' else side)"

text \<open>
  Go's \<open>strconv.Itoa\<close>: the decimal digits, most significant first, after a minus sign
  for a negative number.
\<close>

fun decimalDigits :: "nat \<Rightarrow> string" where
  "decimalDigits n =
     (if n < 10 then [''0123456789'' ! n]
      else decimalDigits (n div 10) @ [''0123456789'' ! (n mod 10)])"

definition Itoa :: "int \<Rightarrow> string" where
  "Itoa i = (if i < 0 then CHR ''-'' # decimalDigits (nat (- i)) else decimalDigits (nat i))"

text \<open>Addition on Go's 64-bit \<open>int\<close> wraps around.\<close>

definition wrapInt :: "int \<Rightarrow> int" where
  "wrapInt x = (x + 2 ^ 63) mod 2 ^ 64 - 2 ^ 63"

text \<open>The record both parsers start from.\<close>

definition initTrade :: "time \<Rightarrow> string \<Rightarrow> string \<Rightarrow> bool \<Rightarrow> string \<Rightarrow> Trade" where
  "initTrade timestamp symbol mdReqId isSnapshot seqNum =
     \<lparr>Timestamp = timestamp, Symbol = symbol, Price = [], Size = [], Time = [],
       Aggressor = [], MdReqId = mdReqId, EntryType = [], Position = [], SeqNum = seqNum,
       IsSnapshot = isSnapshot, IsUpdate = (\<not> isSnapshot)\<rparr>"

text \<open>The \<open>switch tag\<close> of the single-pass parser.\<close>

definition assignField :: "string \<Rightarrow> string \<Rightarrow> Trade \<Rightarrow> Trade" where
  "assignField tag value trade =
     (if tag = ''269'' then trade\<lparr>EntryType := value\<rparr>
      else if tag = ''270'' then trade\<lparr>Price := value\<rparr>
      else if tag = ''271'' then trade\<lparr>Size := value\<rparr>
      else if tag = ''273'' then trade\<lparr>Time := value\<rparr>
      else if tag = ''290'' then trade\<lparr>Position := value\<rparr>
      else if tag = ''2446'' then trade\<lparr>Aggressor := getAggressorSideDesc value\<rparr>
      else trade)"

text \<open>
  The loop \<open>for pos < segLen\<close> of \<open>parseTradeFromSegmentFast\<close>. A missing \<open>=\<close> breaks out
  of the loop; a missing SOH takes the value to the end of the segment and sets
  \<open>pos = segLen\<close>, which ends the loop at its next test.
\<close>

function scanSegment :: "string \<Rightarrow> nat \<Rightarrow> Trade \<Rightarrow> Trade" where
  "scanSegment segment pos trade =
     (if pos < length segment then
        (case IndexByte (sliceFrom segment pos) CHR ''='' of
           None \<Rightarrow> trade
         | Some eq \<Rightarrow>
             let eqPos = eq + pos;
                 tag = sliceRange segment pos eqPos;
                 valueStart = eqPos + 1
             in (case IndexByte (sliceFrom segment valueStart) SOH of
                   None \<Rightarrow>
                     scanSegment segment (length segment)
                       (assignField tag (sliceFrom segment valueStart) trade)
                 | Some sohPos \<Rightarrow>
                     scanSegment segment (valueStart + sohPos + 1)
                       (assignField tag (sliceRange segment valueStart (valueStart + sohPos)) trade)))
      else trade)"
  by pat_completeness auto
termination
  by (relation "measure (\<lambda>(segment, pos, trade). length segment - pos)") auto

text \<open>The default position rule, shared by both parsers.\<close>

definition parseTradeFromSegmentFast ::
    "string \<Rightarrow> string \<Rightarrow> string \<Rightarrow> bool \<Rightarrow> string \<Rightarrow> int \<Rightarrow> time \<Rightarrow> Trade" where
  "parseTradeFromSegmentFast segment symbol mdReqId isSnapshot seqNum entryIndex timestamp =
     (let trade = scanSegment segment 0 (initTrade timestamp symbol mdReqId isSnapshot seqNum)
      in if Position trade = [] \<and> (EntryType trade = ''0'' \<or> EntryType trade = ''1'')
         then trade\<lparr>Position := Itoa (wrapInt (entryIndex + 1))\<rparr>
         else trade)"

text \<open>
  \<open>parseTradeFromSegment\<close>, the multi-pass parser; \<open>now\<close> is its clock read. Each step is
  one of its \<open>if\<close> statements, in the order of the source.
\<close>

definition parseTradeFromSegment ::
    "time \<Rightarrow> string \<Rightarrow> string \<Rightarrow> string \<Rightarrow> bool \<Rightarrow> string \<Rightarrow> int \<Rightarrow> Trade" where
  "parseTradeFromSegment now segment symbol mdReqId isSnapshot seqNum entryIndex =
     (let trade0 = initTrade now symbol mdReqId isSnapshot seqNum;
          entryType = extractSingleFieldValue segment ''269='';
          trade1 = (if entryType \<noteq> [] then trade0\<lparr>EntryType := entryType\<rparr> else trade0);
          price = extractSingleFieldValue segment ''270='';
          trade2 = (if price \<noteq> [] then trade1\<lparr>Price := price\<rparr> else trade1);
          size' = extractSingleFieldValue segment ''271='';
          trade3 = (if size' \<noteq> [] then trade2\<lparr>Size := size'\<rparr> else trade2);
          timeVal = extractSingleFieldValue segment ''273='';
          trade4 = (if timeVal \<noteq> [] then trade3\<lparr>Time := timeVal\<rparr> else trade3);
          position = extractSingleFieldValue segment ''290='';
          trade5 = (if position \<noteq> [] then trade4\<lparr>Position := position\<rparr>
                    else if EntryType trade4 = ''0'' \<or> EntryType trade4 = ''1''
                         then trade4\<lparr>Position := Itoa (wrapInt (entryIndex + 1))\<rparr>
                         else trade4);
          aggressor = extractSingleFieldValue segment ''2446=''
      in if aggressor \<noteq> [] then trade5\<lparr>Aggressor := getAggressorSideDesc aggressor\<rparr>
         else trade5)"

section \<open>Vocabulary of the properties\<close>

text \<open>
  The representation invariant of the store: a non-empty backing slice of length
  \<open>maxSize\<close>, \<open>head\<close> inside it, and at most \<open>maxSize\<close> live slots.
\<close>

definition storeInv :: "TradeStore \<Rightarrow> bool" where
  "storeInv ts \<longleftrightarrow> 0 < maxSize ts \<and> length (trades ts) = maxSize ts
              \<and> head ts < maxSize ts \<and> count ts \<le> maxSize ts"

text \<open>The live records, oldest first: the slots \<open>head, head + 1, ...\<close> taken modulo \<open>maxSize\<close>.\<close>

definition live :: "TradeStore \<Rightarrow> Trade list" where
  "live ts = map (\<lambda>i. trades ts ! ((head ts + i) mod maxSize ts)) [0..<count ts]"

text \<open>The elements of a returned slice, the nil slice having none.\<close>

fun elems :: "'a list option \<Rightarrow> 'a list" where
  "elems None = []"
| "elems (Some xs) = xs"

text \<open>The last \<open>n\<close> elements of a list (all of it when it is shorter).\<close>

definition lastN :: "nat \<Rightarrow> 'a list \<Rightarrow> 'a list" where
  "lastN n xs = drop (length xs - n) xs"

text \<open>
  One call of \<open>AddTrades\<close> with its two clock reads, and a sequence of such calls run one
  after the other on a store.
\<close>

record AddCall =
  callSubNow :: time
  callNow :: time
  callSymbol :: string
  callTrades :: "Trade list"
  callIsSnapshot :: bool
  callMdReqId :: string

definition applyCall :: "TradeStore \<Rightarrow> AddCall \<Rightarrow> panic + TradeStore" where
  "applyCall ts c = AddTrades (callSubNow c) (callNow c) ts (callSymbol c) (callTrades c)
                      (callIsSnapshot c) (callMdReqId c)"

fun runCalls :: "TradeStore \<Rightarrow> AddCall list \<Rightarrow> panic + TradeStore" where
  "runCalls ts [] = Inr ts"
| "runCalls ts (c # cs) = (case applyCall ts c of Inl e \<Rightarrow> Inl e | Inr ts' \<Rightarrow> runCalls ts' cs)"

text \<open>The records a call writes, in the order it writes them.\<close>

definition written :: "AddCall \<Rightarrow> Trade list" where
  "written c = map (stampTrade (callNow c) (callSymbol c) (callMdReqId c) (callIsSnapshot c))
                   (callTrades c)"

text \<open>
  \<open>substr\<close> occupies the bytes \<open>i, ..., i + len(substr) - 1\<close> of \<open>s\<close>: an occurrence of
  \<open>substr\<close> at offset \<open>i\<close>.
\<close>

definition occursAt :: "string \<Rightarrow> string \<Rightarrow> nat \<Rightarrow> bool" where
  "occursAt substr s i \<longleftrightarrow>
     i + length substr \<le> length s \<and> take (length substr) (drop i s) = substr"

text \<open>The number a string of decimal digits stands for.\<close>

definition decimalValue :: "string \<Rightarrow> nat" where
  "decimalValue s = foldl (\<lambda>a c. 10 * a + (of_char c - 48)) 0 s"

text \<open>
  A segment written from its fields: each field is its tag, \<open>=\<close>, its value and the SOH
  that ends it; one more field without its SOH may close the segment.
\<close>

definition renderField :: "string \<times> string \<Rightarrow> string" where
  "renderField f = fst f @ ''='' @ snd f @ [SOH]"

definition renderOpenField :: "(string \<times> string) option \<Rightarrow> string" where
  "renderOpenField final = (case final of None \<Rightarrow> [] | Some f \<Rightarrow> fst f @ ''='' @ snd f)"

definition renderSegment :: "(string \<times> string) list \<Rightarrow> (string \<times> string) option \<Rightarrow> string" where
  "renderSegment flds final = concat (map renderField flds) @ renderOpenField final"

text \<open>All the fields of such a segment, in their order.\<close>

definition fieldsOf :: "(string \<times> string) list \<Rightarrow> (string \<times> string) option
    \<Rightarrow> (string \<times> string) list" where
  "fieldsOf flds final = flds @ (case final of None \<Rightarrow> [] | Some f \<Rightarrow> [f])"

text \<open>The six tags the parsers know.\<close>

definition knownTags :: "string list" where
  "knownTags = [''269'', ''270'', ''271'', ''273'', ''290'', ''2446'']"

text \<open>
  Plain fields: no tag and no value contains \<open>=\<close>, no value contains SOH, no tag ends with
  a known tag unless it is that tag, and no known tag occurs twice.
\<close>

definition plainFields :: "(string \<times> string) list \<Rightarrow> bool" where
  "plainFields flds \<longleftrightarrow>
     list_all (\<lambda>f. CHR ''='' \<notin> set (fst f) \<and> CHR ''='' \<notin> set (snd f) \<and> SOH \<notin> set (snd f)
                  \<and> list_all (\<lambda>k. suffix k (fst f) = (fst f = k)) knownTags) flds
     \<and> list_all (\<lambda>k. count_list (map fst flds) k \<le> 1) knownTags"

section \<open>Example inputs\<close>

text \<open>A parsed record that carries only a price.\<close>

definition priced :: "string \<Rightarrow> Trade" where
  "priced p = zeroTrade\<lparr>Price := p\<rparr>"


text \<open>An update call for one record, and the record it stores.\<close>

definition oneTrade :: "string \<Rightarrow> string \<Rightarrow> AddCall" where
  "oneTrade sy p = \<lparr>callSubNow = 1, callNow = 2, callSymbol = sy, callTrades = [priced p],
     callIsSnapshot = False, callMdReqId = ''req-1''\<rparr>"

definition tradeOf :: "string \<Rightarrow> string \<Rightarrow> Trade" where
  "tradeOf sy p = stampTrade 2 sy ''req-1'' False (priced p)"

text \<open>
  A new store of capacity 3, four single-record calls for two symbols, and the store
  they lead to: full, with the ring wrapped around once.
\<close>

definition freshStore :: TradeStore where
  "freshStore = \<lparr>trades = [zeroTrade, zeroTrade, zeroTrade], head = 0, count = 0,
     subscriptions = Map.empty, updateCount = 0, maxSize = 3\<rparr>"

definition mixedCalls :: "AddCall list" where
  "mixedCalls = [oneTrade ''ETH-USD'' ''0'', oneTrade ''BTC-USD'' ''1'', oneTrade ''ETH-USD'' ''2'',
     oneTrade ''BTC-USD'' ''3'']"

definition mixedStore :: TradeStore where
  "mixedStore = \<lparr>trades = [tradeOf ''BTC-USD'' ''3'', tradeOf ''BTC-USD'' ''1'',
       tradeOf ''ETH-USD'' ''2''],
     head = 1, count = 3, subscriptions = Map.empty, updateCount = 4, maxSize = 3\<rparr>"

text \<open>A store with two registered request ids that both received their snapshot.\<close>

definition staleStore :: TradeStore where
  "staleStore = freshStore\<lparr>subscriptions :=
     [''req-1'' \<mapsto> \<lparr>LastUpdate = 4, TotalUpdates = 3, SubSymbol = ''BTC-USD'',
         SubscriptionType = ''1'', SubMdReqId = ''req-1'', Active = True,
         SnapshotReceived = True\<rparr>,
      ''req-2'' \<mapsto> \<lparr>LastUpdate = 3, TotalUpdates = 1, SubSymbol = ''ETH-USD'',
         SubscriptionType = ''1'', SubMdReqId = ''req-2'', Active = True,
         SnapshotReceived = True\<rparr>]\<rparr>"

text \<open>An update call and a snapshot call under the same request id.\<close>

definition updateCall :: AddCall where
  "updateCall = \<lparr>callSubNow = 6, callNow = 6, callSymbol = ''BTC-USD'',
     callTrades = [priced ''100''], callIsSnapshot = False, callMdReqId = ''req-1''\<rparr>"

definition snapshotCall :: AddCall where
  "snapshotCall = \<lparr>callSubNow = 7, callNow = 7, callSymbol = ''BTC-USD'',
     callTrades = [priced ''200''], callIsSnapshot = True, callMdReqId = ''req-1''\<rparr>"

text \<open>
  The segment of the default-position example, a bid without tag 290, and a segment
  whose last field has no delimiter after it.
\<close>

definition bidSegment :: string where
  "bidSegment = ''269=0'' @ [SOH] @ ''270=49999.00'' @ [SOH] @ ''271=1.0'' @ [SOH]"


text \<open>A message with a bid, an offer and a trade entry between other fields.\<close>

definition threeEntries :: string where
  "threeEntries = ''35=W'' @ [SOH] @ ''268=3'' @ [SOH]
     @ ''269=0'' @ [SOH] @ ''270=1'' @ [SOH]
     @ ''269=1'' @ [SOH] @ ''270=2'' @ [SOH]
     @ ''269=2'' @ [SOH] @ ''270=3'' @ [SOH] @ ''10=000'' @ [SOH]"

text \<open>
  The fields of the round-trip example of the specification, a trade entry with an
  aggressor side, here without the SOH after its last field.
\<close>

definition tradeFields :: "(string \<times> string) list" where
  "tradeFields = [(''269'', ''2''), (''270'', ''50000.00''), (''271'', ''1.5''),
     (''273'', ''20250101-12:00:00'')]"

definition tradeFinal :: "(string \<times> string) option" where
  "tradeFinal = Some (''2446'', ''1'')"

text \<open>
  Three segments outside the plain ones: tag 270 twice; a tag 1270, which ends with 270;
  and a text field (tag 58) whose value contains \<open>270=\<close>.
\<close>

definition repeatedTagSegment :: string where
  "repeatedTagSegment = ''269=0'' @ [SOH] @ ''270=1'' @ [SOH] @ ''270=2'' @ [SOH]"

definition longerTagSegment :: string where
  "longerTagSegment = ''269=2'' @ [SOH] @ ''1270=9'' @ [SOH]"

definition textValueSegment :: string where
  "textValueSegment = ''269=2'' @ [SOH] @ ''58=270=5'' @ [SOH]"

section \<open>Properties\<close>

subsection \<open>Ring indices modulo the capacity\<close>

lemma mod_shift_inj_le:
  fixes h i j m :: nat
  assumes "i \<le> j" "j < m" "(h + i) mod m = (h + j) mod m"
  shows "i = j"
proof -
  have "h + i \<le> h + j" using assms(1) by simp
  from mod_eq_dvd_iff_nat [OF this, of m] assms(3)
  have "m dvd (h + j) - (h + i)" by simp
  then have "m dvd j - i" by simp
  moreover have "j - i < m" using assms(2) by simp
  ultimately have "j - i = 0" by (meson dvd_imp_le not_less zero_less_iff_neq_zero)
  then show ?thesis using assms(1) by simp
qed

lemma mod_shift_inj:
  fixes h i j m :: nat
  assumes "i < m" "j < m" "(h + i) mod m = (h + j) mod m"
  shows "i = j"
proof (cases "i \<le> j")
  case True
  then show ?thesis using mod_shift_inj_le assms by blast
next
  case False
  then have "j \<le> i" by simp
  then show ?thesis using mod_shift_inj_le [of j i m h] assms by simp
qed

subsection \<open>One write into the ring\<close>

lemma length_live [simp]: "length (live ts) = count ts"
  by (simp add: live_def)

lemma insertTrade_total: "storeInv ts \<Longrightarrow> \<exists>ts'. insertTrade ts t = Inr ts'"
proof -
  assume w: "storeInv ts"
  then have "\<not> length (trades ts) \<le> (head ts + count ts) mod maxSize ts"
    by (simp add: storeInv_def not_le)
  moreover have "maxSize ts \<noteq> 0" using w by (simp add: storeInv_def)
  ultimately show ?thesis by (simp add: insertTrade_def Let_def)
qed

lemma insertTrade_frame:
  assumes "insertTrade ts t = Inr ts'"
  shows "maxSize ts' = maxSize ts" "subscriptions ts' = subscriptions ts"
    "length (trades ts') = length (trades ts)"
    "updateCount ts' = updateCount ts + 1"
  using assms by (auto simp: insertTrade_def Let_def split: if_splits)

lemma insertTrade_count:
  assumes "insertTrade ts t = Inr ts'"
  shows "count ts' = (if count ts < maxSize ts then count ts + 1 else count ts)"
  using assms by (auto simp: insertTrade_def Let_def split: if_splits)

lemma insertTrade_head:
  assumes "insertTrade ts t = Inr ts'"
  shows "head ts' = (if count ts < maxSize ts then head ts else (head ts + 1) mod maxSize ts)"
  using assms by (auto simp: insertTrade_def Let_def split: if_splits)

lemma insertTrade_trades:
  assumes "insertTrade ts t = Inr ts'"
  shows "trades ts' = (trades ts)[(head ts + count ts) mod maxSize ts := t]"
  using assms by (auto simp: insertTrade_def Let_def split: if_splits)

lemma insertTrade_inv:
  assumes "storeInv ts" "insertTrade ts t = Inr ts'"
  shows "storeInv ts'"
  using assms(1) insertTrade_frame [OF assms(2)] insertTrade_count [OF assms(2)]
    insertTrade_head [OF assms(2)]
  by (auto simp: storeInv_def)

lemma insertTrade_live_filling:
  assumes w: "storeInv ts" and i: "insertTrade ts t = Inr ts'" and c: "count ts < maxSize ts"
  shows "live ts' = live ts @ [t]"
proof (rule nth_equalityI)
  show "length (live ts') = length (live ts @ [t])"
    using insertTrade_count [OF i] c by simp
next
  fix k assume "k < length (live ts')"
  then have k: "k \<le> count ts" using insertTrade_count [OF i] c by simp
  have M: "maxSize ts' = maxSize ts" and H: "head ts' = head ts" and C: "count ts' = count ts + 1"
    using insertTrade_frame(1) [OF i] insertTrade_head [OF i] insertTrade_count [OF i] c by simp_all
  have T: "trades ts' = (trades ts)[(head ts + count ts) mod maxSize ts := t]"
    by (rule insertTrade_trades [OF i])
  have L: "length (trades ts) = maxSize ts" "0 < maxSize ts" using w by (simp_all add: storeInv_def)
  show "live ts' ! k = (live ts @ [t]) ! k"
  proof (cases "k = count ts")
    case True
    then show ?thesis using L by (simp add: live_def M H C T nth_append)
  next
    case False
    with k have kl: "k < count ts" by simp
    have "(head ts + k) mod maxSize ts \<noteq> (head ts + count ts) mod maxSize ts"
      using mod_shift_inj [of k "maxSize ts" "count ts" "head ts"] kl c by auto
    then show ?thesis using kl by (simp add: live_def M H C T nth_append)
  qed
qed

lemma insertTrade_live_full:
  assumes w: "storeInv ts" and i: "insertTrade ts t = Inr ts'" and c: "count ts = maxSize ts"
  shows "live ts' = tl (live ts) @ [t]"
proof (rule nth_equalityI)
  show "length (live ts') = length (tl (live ts) @ [t])"
    using insertTrade_count [OF i] c w by (simp add: storeInv_def)
next
  fix k assume "k < length (live ts')"
  then have k: "k < maxSize ts" using insertTrade_count [OF i] c by simp
  have M: "maxSize ts' = maxSize ts" and H: "head ts' = (head ts + 1) mod maxSize ts"
    and C: "count ts' = maxSize ts"
    using insertTrade_frame(1) [OF i] insertTrade_head [OF i] insertTrade_count [OF i] c by simp_all
  have L: "length (trades ts) = maxSize ts" "0 < maxSize ts" "head ts < maxSize ts"
    using w by (simp_all add: storeInv_def)
  have W: "(head ts + count ts) mod maxSize ts = head ts" using c L by simp
  have T: "trades ts' = (trades ts)[head ts := t]"
    using insertTrade_trades [OF i] W by simp
  have idx: "((head ts + 1) mod maxSize ts + k) mod maxSize ts = (head ts + (k + 1)) mod maxSize ts"
    by (simp add: mod_add_left_eq add.assoc)
  show "live ts' ! k = (tl (live ts) @ [t]) ! k"
  proof (cases "k + 1 = maxSize ts")
    case True
    then have "(head ts + (k + 1)) mod maxSize ts = head ts" using L by simp
    then show ?thesis using True L k c
      by (simp add: live_def M H C T idx nth_append del: One_nat_def)
  next
    case False
    with k have kl: "k + 1 < maxSize ts" by simp
    have "(head ts + (k + 1)) mod maxSize ts \<noteq> (head ts + 0) mod maxSize ts"
      using mod_shift_inj [of "k + 1" "maxSize ts" 0 "head ts"] kl L by auto
    then have ne: "(head ts + (k + 1)) mod maxSize ts \<noteq> head ts" using L by simp
    have tlk: "tl (live ts) ! k = live ts ! (k + 1)"
      using kl c by (simp add: nth_tl)
    have "live ts ! (k + 1) = trades ts ! ((head ts + (k + 1)) mod maxSize ts)"
      using kl c by (simp add: live_def del: One_nat_def)
    moreover have "live ts' ! k = trades ts ! ((head ts + (k + 1)) mod maxSize ts)"
      using k ne by (simp add: live_def M H C T idx del: One_nat_def)
    ultimately show ?thesis using kl c tlk by (simp add: nth_append)
  qed
qed

lemma insertTrade_live:
  assumes "storeInv ts" "insertTrade ts t = Inr ts'"
  shows "live ts' = lastN (maxSize ts) (live ts @ [t])"
proof (cases "count ts < maxSize ts")
  case True
  then show ?thesis using insertTrade_live_filling [OF assms True] by (simp add: lastN_def)
next
  case False
  then have c: "count ts = maxSize ts" using assms(1) by (simp add: storeInv_def)
  have "0 < count ts" using c assms(1) by (simp add: storeInv_def)
  then have "live ts \<noteq> []" by (metis length_live length_greater_0_conv)
  then show ?thesis using insertTrade_live_full [OF assms c] c
    by (cases "live ts") (auto simp: lastN_def dest: arg_cong [where f = length])
qed

subsection \<open>Batches, sequences of calls and the copy of the ring\<close>

lemma lastN_length [simp]: "length (lastN n xs) = min n (length xs)"
  by (simp add: lastN_def)

lemma lastN_append_lastN: "lastN n (lastN n xs @ ys) = lastN n (xs @ ys)"
proof (cases "length xs \<le> n")
  case True
  then show ?thesis by (simp add: lastN_def)
next
  case False
  then have "length xs - n + n = length xs" by simp
  then show ?thesis using False by (simp add: lastN_def add.commute)
qed

lemma lastN_all: "length xs \<le> n \<Longrightarrow> lastN n xs = xs"
  by (simp add: lastN_def)

lemma addLoop_spec:
  assumes "storeInv ts"
  shows "\<exists>ts'. addLoop now symbol mdReqId isSnapshot ts xs = Inr ts' \<and> storeInv ts'
           \<and> maxSize ts' = maxSize ts \<and> subscriptions ts' = subscriptions ts
           \<and> live ts' = lastN (maxSize ts)
                 (live ts @ map (stampTrade now symbol mdReqId isSnapshot) xs)"
  using assms
proof (induction xs arbitrary: ts)
  case Nil
  then show ?case by (simp add: lastN_all storeInv_def)
next
  case (Cons x xs)
  let ?t = "stampTrade now symbol mdReqId isSnapshot x"
  obtain ts1 where i: "insertTrade ts ?t = Inr ts1"
    using insertTrade_total [OF Cons.prems] by blast
  have w1: "storeInv ts1" by (rule insertTrade_inv [OF Cons.prems i])
  have l1: "live ts1 = lastN (maxSize ts) (live ts @ [?t])"
    by (rule insertTrade_live [OF Cons.prems i])
  have f1: "maxSize ts1 = maxSize ts" "subscriptions ts1 = subscriptions ts"
    using insertTrade_frame [OF i] by simp_all
  from Cons.IH [OF w1] obtain ts' where
    r: "addLoop now symbol mdReqId isSnapshot ts1 xs = Inr ts'" "storeInv ts'"
       "maxSize ts' = maxSize ts1" "subscriptions ts' = subscriptions ts1"
       "live ts' = lastN (maxSize ts1)
          (live ts1 @ map (stampTrade now symbol mdReqId isSnapshot) xs)"
    by blast
  have "live ts' = lastN (maxSize ts)
          (live ts @ map (stampTrade now symbol mdReqId isSnapshot) (x # xs))"
    using r(5) l1 f1(1) lastN_append_lastN [of "maxSize ts" "live ts @ [?t]"] by simp
  then show ?case using i r f1 by simp
qed

lemma storeInv_subscriptions [simp]: "storeInv (ts\<lparr>subscriptions := m\<rparr>) = storeInv ts"
  by (simp add: storeInv_def)

lemma live_subscriptions_update [simp]: "live (ts\<lparr>subscriptions := m\<rparr>) = live ts"
  by (simp add: live_def)

lemma AddTrades_spec:
  assumes "storeInv ts"
  shows "\<exists>ts'. AddTrades subNow now ts symbol xs isSnapshot mdReqId = Inr ts' \<and> storeInv ts'
           \<and> maxSize ts' = maxSize ts
           \<and> live ts' = lastN (maxSize ts)
                 (live ts @ map (stampTrade now symbol mdReqId isSnapshot) xs)
           \<and> subscriptions ts' = (case subscriptions ts mdReqId of
                 None \<Rightarrow> subscriptions ts
               | Some sub \<Rightarrow> (subscriptions ts)
                   (mdReqId \<mapsto> touchSubscription subNow (length xs) isSnapshot sub))"
proof (cases "subscriptions ts mdReqId")
  case None
  then show ?thesis using addLoop_spec [OF assms, of now symbol mdReqId isSnapshot xs]
    by (auto simp: AddTrades_def)
next
  case (Some sub)
  let ?ts1 = "ts\<lparr>subscriptions := (subscriptions ts)
      (mdReqId \<mapsto> touchSubscription subNow (length xs) isSnapshot sub)\<rparr>"
  have "storeInv ?ts1" using assms by simp
  from addLoop_spec [OF this, of now symbol mdReqId isSnapshot xs] Some
  show ?thesis by (auto simp: AddTrades_def)
qed

lemma applyCall_spec:
  assumes "storeInv ts"
  shows "\<exists>ts'. applyCall ts c = Inr ts' \<and> storeInv ts' \<and> maxSize ts' = maxSize ts
           \<and> live ts' = lastN (maxSize ts) (live ts @ written c)"
  using AddTrades_spec [OF assms, of "callSubNow c" "callNow c" "callSymbol c" "callTrades c"
      "callIsSnapshot c" "callMdReqId c"]
  by (auto simp: applyCall_def written_def)

lemma runCalls_spec:
  assumes "storeInv ts"
  shows "\<exists>ts'. runCalls ts cs = Inr ts' \<and> storeInv ts' \<and> maxSize ts' = maxSize ts
           \<and> live ts' = lastN (maxSize ts) (live ts @ concat (map written cs))"
  using assms
proof (induction cs arbitrary: ts)
  case Nil
  then show ?case by (simp add: lastN_all storeInv_def)
next
  case (Cons c cs)
  from applyCall_spec [OF Cons.prems, of c] obtain ts1 where
    a: "applyCall ts c = Inr ts1" "storeInv ts1" "maxSize ts1 = maxSize ts"
       "live ts1 = lastN (maxSize ts) (live ts @ written c)" by blast
  from Cons.IH [OF a(2)] obtain ts' where
    r: "runCalls ts1 cs = Inr ts'" "storeInv ts'" "maxSize ts' = maxSize ts1"
       "live ts' = lastN (maxSize ts1) (live ts1 @ concat (map written cs))" by blast
  have "live ts' = lastN (maxSize ts) (live ts @ concat (map written (c # cs)))"
    using r(4) a(3,4) lastN_append_lastN [of "maxSize ts" "live ts @ written c"] by simp
  then show ?case using a r by simp
qed

lemma NewTradeStore_inv:
  assumes "1 \<le> C"
  shows "\<exists>ts. NewTradeStore C f = Inr ts \<and> storeInv ts \<and> maxSize ts = nat C \<and> live ts = []
           \<and> count ts = 0 \<and> head ts = 0 \<and> subscriptions ts = Map.empty"
  using assms by (simp add: NewTradeStore_def storeInv_def live_def)

lemma readSlot_inv: "storeInv ts \<Longrightarrow> readSlot ts k = Inr (trades ts ! (k mod maxSize ts))"
  by (simp add: readSlot_def storeInv_def Let_def not_le)

lemma copyLoop_fold:
  assumes "storeInv ts"
  shows "copyLoop ts is r
         = Inr (fold (\<lambda>i r. r[i := trades ts ! ((head ts + i) mod maxSize ts)]) is r)"
  using assms by (induction "is" arbitrary: r) (simp_all add: readSlot_inv)

lemma fold_update_upt:
  "n \<le> length r \<Longrightarrow> fold (\<lambda>i r. r[i := g i]) [0..<n] r = map g [0..<n] @ drop n r"
proof (induction n)
  case 0
  then show ?case by simp
next
  case (Suc n)
  then have n: "n < length r" by simp
  have "(map g [0..<n] @ drop n r)[n := g n] = map g [0..<n] @ (drop n r)[0 := g n]"
    by (simp add: list_update_append)
  also have "(drop n r)[0 := g n] = g n # drop (Suc n) r"
    using n by (simp add: Cons_nth_drop_Suc [symmetric])
  finally show ?case using Suc by simp
qed

lemma GetAllTrades_live:
  assumes "storeInv ts"
  shows "GetAllTrades ts = Inr (if count ts = 0 then None else Some (live ts))"
  by (simp add: GetAllTrades_def copyLoop_fold [OF assms] fold_update_upt live_def)

subsection \<open>Capacity and eviction\<close>

lemma GetAllTrades_elems:
  assumes "storeInv ts"
  shows "\<exists>r. GetAllTrades ts = Inr r \<and> elems r = live ts"
proof (cases "count ts = 0")
  case True
  then have "live ts = []" by (simp add: live_def)
  then show ?thesis using True GetAllTrades_live [OF assms] by simp
next
  case False
  then show ?thesis using GetAllTrades_live [OF assms] by simp
qed




subsection \<open>The two passes of GetRecentTrades\<close>

lemma rev_live_nth:
  assumes "i < count ts"
  shows "rev (live ts) ! i = trades ts ! ((head ts + count ts - 1 - i) mod maxSize ts)"
proof -
  have "rev (live ts) ! i = live ts ! (count ts - Suc i)"
    using assms by (simp add: rev_nth)
  also have "\<dots> = trades ts ! ((head ts + (count ts - Suc i)) mod maxSize ts)"
    using assms by (simp add: live_def)
  also have "head ts + (count ts - Suc i) = head ts + count ts - 1 - i"
    using assms by simp
  finally show ?thesis .
qed

lemma readSlot_newest:
  assumes "storeInv ts" "i < count ts"
  shows "readSlot ts (head ts + count ts - 1 - i) = Inr (rev (live ts) ! i)"
  using assms by (simp add: readSlot_inv rev_live_nth)

lemma drop_rev_live:
  assumes "i < count ts"
  shows "drop i (rev (live ts)) = rev (live ts) ! i # drop (i + 1) (rev (live ts))"
  using assms by (simp add: Cons_nth_drop_Suc)

lemma countMatches_spec:
  "storeInv ts \<Longrightarrow> i \<le> count ts \<Longrightarrow> countMatches ts s L i m
     = Inr (if int m < L
            then min (nat L) (m + length (filter (\<lambda>t. Symbol t = s) (drop i (rev (live ts)))))
            else m)"
proof (induction ts s L i m rule: countMatches.induct)
  case (1 ts s L i m)
  note inv = "1.prems"(1)
  show ?case
  proof (cases "i < count ts \<and> int m < L")
    case True
    then have ic: "i < count ts" and mL: "int m < L" by simp_all
    let ?t = "rev (live ts) ! i"
    let ?m' = "if Symbol ?t = s then m + 1 else m"
    have rd: "readSlot ts (head ts + count ts - 1 - i) = Inr ?t"
      by (rule readSlot_newest [OF inv ic])
    have step: "countMatches ts s L i m = countMatches ts s L (i + 1) ?m'"
      using True rd by (subst countMatches.simps) simp
    have ih: "countMatches ts s L (i + 1) ?m'
       = Inr (if int ?m' < L
            then min (nat L) (?m' + length (filter (\<lambda>t. Symbol t = s) (drop (i + 1) (rev (live ts)))))
            else ?m')"
      using "1.IH" [OF True rd] ic inv by simp
    show ?thesis
      unfolding step ih drop_rev_live [OF ic]
      using mL by (auto simp: min_def)
  next
    case False
    then have "countMatches ts s L i m = Inr m"
      by (subst countMatches.simps) auto
    moreover have "int m < L \<Longrightarrow> drop i (rev (live ts)) = []"
      using False "1.prems"(2) by simp
    ultimately show ?thesis by (auto simp: min_def)
  qed
qed

lemma fillRecent_spec:
  "storeInv ts \<Longrightarrow> i \<le> count ts \<Longrightarrow> - 1 \<le> r \<Longrightarrow> r < int (length recent)
     \<Longrightarrow> nat (r + 1) \<le> length (filter (\<lambda>t. Symbol t = s) (drop i (rev (live ts))))
     \<Longrightarrow> fillRecent ts s i r recent
         = Inr (rev (take (nat (r + 1)) (filter (\<lambda>t. Symbol t = s) (drop i (rev (live ts)))))
                @ drop (nat (r + 1)) recent)"
proof (induction ts s i r recent rule: fillRecent.induct)
  case (1 ts s i r recent)
  note inv = "1.prems"(1)
  let ?P = "\<lambda>t. Symbol t = s"
  show ?case
  proof (cases "i < count ts \<and> 0 \<le> r")
    case True
    then have ic: "i < count ts" and r0: "0 \<le> r" by simp_all
    let ?t = "rev (live ts) ! i"
    let ?rest = "filter ?P (drop (i + 1) (rev (live ts)))"
    have rd: "readSlot ts (head ts + count ts - 1 - i) = Inr ?t"
      by (rule readSlot_newest [OF inv ic])
    have rl: "\<not> int (length recent) \<le> r" using "1.prems"(4) by simp
    show ?thesis
    proof (cases "Symbol ?t = s")
      case match: True
      have ms: "filter ?P (drop i (rev (live ts))) = ?t # ?rest"
        using match by (subst drop_rev_live [OF ic]) simp
      have step: "fillRecent ts s i r recent
          = fillRecent ts s (i + 1) (r - 1) (recent[nat r := ?t])"
        using True rd match rl by (subst fillRecent.simps) simp
      have n1: "nat (r - 1 + 1) = nat r" by simp
      have n2: "nat (r + 1) = Suc (nat r)" using r0 by simp
      have len: "nat r \<le> length ?rest" using "1.prems"(5) ms n2 by simp
      have ih: "fillRecent ts s (i + 1) (r - 1) (recent[nat r := ?t])
          = Inr (rev (take (nat r) ?rest) @ drop (nat r) (recent[nat r := ?t]))"
        using "1.IH"(1) [OF True rd match rl] ic r0 "1.prems"(4) len inv n1 by simp
      have nr: "nat r < length recent" using r0 "1.prems"(4) by simp
      have "drop (nat r) (recent[nat r := ?t]) = ?t # drop (Suc (nat r)) recent"
        using nr by (simp add: Cons_nth_drop_Suc [symmetric])
      then show ?thesis unfolding step ih ms n2 by simp
    next
      case nomatch: False
      have ms: "filter ?P (drop i (rev (live ts))) = ?rest"
        using nomatch by (subst drop_rev_live [OF ic]) simp
      have step: "fillRecent ts s i r recent = fillRecent ts s (i + 1) r recent"
        using True rd nomatch by (subst fillRecent.simps) simp
      have ih: "fillRecent ts s (i + 1) r recent
          = Inr (rev (take (nat (r + 1)) ?rest) @ drop (nat (r + 1)) recent)"
        using "1.IH"(2) [OF True rd nomatch] ic "1.prems" ms inv by simp
      show ?thesis unfolding step ih ms ..
    qed
  next
    case False
    then have res: "fillRecent ts s i r recent = Inr recent"
      by (subst fillRecent.simps) auto
    have "nat (r + 1) = 0"
    proof (cases "i < count ts")
      case True
      with False have "r < 0" by simp
      then show ?thesis by simp
    next
      case False
      then have "drop i (rev (live ts)) = []" using "1.prems"(2) by simp
      then show ?thesis using "1.prems"(5) by simp
    qed
    then show ?thesis using res by simp
  qed
qed

lemma GetRecentTrades_spec:
  assumes "storeInv ts"
  shows "GetRecentTrades ts s L
     = Inr (let m = filter (\<lambda>t. Symbol t = s) (live ts); n = min (nat L) (length m)
            in if n = 0 then None else Some (lastN n m))"
proof -
  let ?P = "\<lambda>t. Symbol t = s"
  let ?m = "filter ?P (live ts)"
  let ?n = "min (nat L) (length ?m)"
  have fr: "filter ?P (rev (live ts)) = rev ?m" by (simp add: rev_filter)
  have cm: "countMatches ts s L 0 0 = Inr ?n"
    using countMatches_spec [OF assms, of 0 s L 0] by (simp add: fr)
  show ?thesis
  proof (cases "count ts = 0")
    case True
    then have "live ts = []" by (simp add: live_def)
    then show ?thesis using True by (simp add: GetRecentTrades_def)
  next
    case False
    show ?thesis
    proof (cases "?n = 0")
      case True
      then show ?thesis using False cm by (simp add: GetRecentTrades_def Let_def)
    next
      case n0: False
      have n1: "nat (int ?n - 1 + 1) = ?n" by simp
      have "fillRecent ts s 0 (int ?n - 1) (replicate ?n zeroTrade)
          = Inr (rev (take (nat (int ?n - 1 + 1)) (filter ?P (drop 0 (rev (live ts)))))
                 @ drop (nat (int ?n - 1 + 1)) (replicate ?n zeroTrade))"
        by (rule fillRecent_spec [OF assms]) (simp_all add: fr)
      then have "fillRecent ts s 0 (int ?n - 1) (replicate ?n zeroTrade)
          = Inr (rev (take ?n (rev ?m)))"
        unfolding n1 by (simp add: fr)
      moreover have "rev (take ?n (rev ?m)) = lastN ?n ?m"
        by (simp add: lastN_def rev_take)
      ultimately show ?thesis using False cm n0
        by (simp add: GetRecentTrades_def Let_def)
    qed
  qed
qed

lemma live_empty: "count ts = 0 \<Longrightarrow> live ts = []"
  by (simp add: live_def)

lemma GetAllTrades_any:
  assumes "storeInv ts \<or> count ts = 0"
  shows "GetAllTrades ts = Inr (if count ts = 0 then None else Some (live ts))"
proof (cases "count ts = 0")
  case True
  then show ?thesis by (simp add: GetAllTrades_def)
next
  case False
  then have "storeInv ts" using assms by simp
  then show ?thesis by (rule GetAllTrades_live)
qed

lemma GetRecentTrades_any:
  assumes "storeInv ts \<or> count ts = 0"
  shows "GetRecentTrades ts s L
     = Inr (let m = filter (\<lambda>t. Symbol t = s) (live ts); n = min (nat L) (length m)
            in if n = 0 then None else Some (lastN n m))"
proof (cases "count ts = 0")
  case True
  then show ?thesis by (simp add: GetRecentTrades_def live_empty)
next
  case False
  then have "storeInv ts" using assms by simp
  then show ?thesis by (rule GetRecentTrades_spec)
qed

subsection \<open>Reading by symbol\<close>

lemma NewTradeStore_freshStore: "NewTradeStore 3 [] = Inr freshStore"
  by (simp add: NewTradeStore_def freshStore_def numeral_3_eq_3)

lemma runCalls_mixedStore: "runCalls freshStore mixedCalls = Inr mixedStore"
  by (simp add: mixedCalls_def freshStore_def mixedStore_def applyCall_def AddTrades_def
      insertTrade_def oneTrade_def tradeOf_def Let_def numeral_2_eq_2)

lemma Symbol_tradeOf: "Symbol (tradeOf sy p) = sy"
  by (simp add: tradeOf_def stampTrade_def)

lemma storeInv_mixedStore: "storeInv mixedStore"
  by (simp add: storeInv_def mixedStore_def)

lemma live_mixedStore:
  "live mixedStore = [tradeOf ''BTC-USD'' ''1'', tradeOf ''ETH-USD'' ''2'',
     tradeOf ''BTC-USD'' ''3'']"
  by (simp add: live_def mixedStore_def upt_conv_Cons)

text \<open>
  Claim C2. On every store that satisfies the representation invariant or holds no
  record (every store \<open>NewTradeStore\<close> and \<open>AddTrades\<close> can produce), for every symbol and
  every limit \<open>L \<ge> 1\<close>, \<open>GetRecentTrades\<close> returns, oldest first, the last
  \<open>min L k\<close> of the \<open>k\<close> records of \<open>GetAllTrades\<close> whose \<open>Symbol\<close> is the one asked for;
  it never returns more than \<open>L\<close> records.
\<close>

theorem GetRecentTrades_most_recent_matches:
  assumes "storeInv ts \<or> count ts = 0" "1 \<le> L"
  shows "\<exists>a r. GetAllTrades ts = Inr a \<and> GetRecentTrades ts s L = Inr r
           \<and> elems r = lastN (nat L) (filter (\<lambda>t. Symbol t = s) (elems a))
           \<and> length (elems r) = min (nat L) (length (filter (\<lambda>t. Symbol t = s) (elems a)))
           \<and> int (length (elems r)) \<le> L"
proof -
  let ?m = "filter (\<lambda>t. Symbol t = s) (live ts)"
  let ?n = "min (nat L) (length ?m)"
  let ?a = "if count ts = 0 then None else Some (live ts)"
  have a: "GetAllTrades ts = Inr ?a" by (rule GetAllTrades_any [OF assms(1)])
  have ea: "elems ?a = live ts" by (simp add: live_empty)
  have g: "GetRecentTrades ts s L = Inr (if ?n = 0 then None else Some (lastN ?n ?m))"
    using GetRecentTrades_any [OF assms(1), of s L] by (simp add: Let_def)
  have l: "lastN ?n ?m = lastN (nat L) ?m" by (simp add: lastN_def min_def)
  have z: "?n = 0 \<Longrightarrow> lastN (nat L) ?m = []"
    using assms(2) by (simp add: lastN_def min_def split: if_splits)
  have e: "elems (if ?n = 0 then None else Some (lastN ?n ?m)) = lastN (nat L) ?m"
    using l z by simp
  have len: "length (lastN (nat L) ?m) = ?n" by simp
  have le: "int ?n \<le> L" using assms(2) by simp
  have c1: "elems (if ?n = 0 then None else Some (lastN ?n ?m))
      = lastN (nat L) (filter (\<lambda>t. Symbol t = s) (elems ?a))"
    unfolding e ea ..
  have c2: "length (elems (if ?n = 0 then None else Some (lastN ?n ?m)))
      = min (nat L) (length (filter (\<lambda>t. Symbol t = s) (elems ?a)))"
    unfolding e ea len ..
  have c3: "int (length (elems (if ?n = 0 then None else Some (lastN ?n ?m)))) \<le> L"
    unfolding e len by (rule le)
  show ?thesis using a g c1 c2 c3 by (intro exI conjI)
qed

text \<open>
  The property on a full store of capacity 3 whose ring has wrapped around: of the two
  live records of the symbol, limit 1 returns the newer one.
\<close>

theorem GetRecentTrades_most_recent_matches_witness:
  "storeInv mixedStore \<and> (1::int) \<le> 1 \<and>
   GetAllTrades mixedStore = Inr (Some [tradeOf ''BTC-USD'' ''1'', tradeOf ''ETH-USD'' ''2'',
     tradeOf ''BTC-USD'' ''3''])
   \<and> GetRecentTrades mixedStore ''BTC-USD'' 1 = Inr (Some [tradeOf ''BTC-USD'' ''3''])"
proof -
  have h: "(1::int) \<le> 1" by simp
  from GetRecentTrades_most_recent_matches [OF disjI1 [OF storeInv_mixedStore] h, of "''BTC-USD''"]
  obtain a r where
    f: "GetAllTrades mixedStore = Inr a" "GetRecentTrades mixedStore ''BTC-USD'' 1 = Inr r"
       "elems r = lastN (nat 1) (filter (\<lambda>t. Symbol t = ''BTC-USD'') (elems a))" by blast
  have a: "a = Some (live mixedStore)"
    using f(1) GetAllTrades_live [OF storeInv_mixedStore] by (simp add: mixedStore_def)
  have e: "elems r = [tradeOf ''BTC-USD'' ''3'']"
    using f(3) unfolding a by (simp add: live_mixedStore lastN_def Symbol_tradeOf)
  then have "r = Some [tradeOf ''BTC-USD'' ''3'']" by (cases r) simp_all
  then show ?thesis using storeInv_mixedStore f(1,2) a live_mixedStore by simp
qed

text \<open>
  Claim C5, as amended. On every store that satisfies the representation invariant or
  holds no record,
  \<open>GetAllTrades\<close> returns the nil slice exactly when the store holds no live record;
  \<open>GetRecentTrades\<close> returns the nil slice when the store holds no live record and
  also when no live record has the symbol asked for. \<open>GetRecentTrades\<close> gives the same
  nil result in both cases; only \<open>GetAllTrades\<close> tells an empty store from a non-empty one.
\<close>

theorem absent_results_empty_or_no_match:
  assumes "storeInv ts \<or> count ts = 0"
  shows "(GetAllTrades ts = Inr None \<longleftrightarrow> count ts = 0)
       \<and> (count ts = 0 \<longrightarrow> GetRecentTrades ts s L = Inr None)
       \<and> ((\<forall>t \<in> set (live ts). Symbol t \<noteq> s) \<longrightarrow> GetRecentTrades ts s L = Inr None)"
proof -
  have a: "GetAllTrades ts = Inr None \<longleftrightarrow> count ts = 0"
    using GetAllTrades_any [OF assms] by simp
  have g: "GetRecentTrades ts s L = Inr None"
    if "filter (\<lambda>t. Symbol t = s) (live ts) = []"
    using GetRecentTrades_any [OF assms, of s L] that by (simp add: Let_def)
  have b: "count ts = 0 \<longrightarrow> GetRecentTrades ts s L = Inr None"
    using g by (simp add: live_empty)
  have c: "(\<forall>t \<in> set (live ts). Symbol t \<noteq> s) \<longrightarrow> GetRecentTrades ts s L = Inr None"
    using g by (simp add: filter_empty_conv)
  show ?thesis using a b c by simp
qed

text \<open>
  The amended property on a non-empty store without any record of the symbol asked for.
\<close>

theorem absent_results_empty_or_no_match_witness:
  "storeInv mixedStore \<and> count mixedStore \<noteq> 0 \<and> GetAllTrades mixedStore \<noteq> Inr None
   \<and> map Symbol (live mixedStore) = [''BTC-USD'', ''ETH-USD'', ''BTC-USD'']
   \<and> GetRecentTrades mixedStore ''SOL-USD'' 10 = Inr None"
proof -
  have n: "\<forall>t \<in> set (live mixedStore). Symbol t \<noteq> ''SOL-USD''"
    by (simp add: live_mixedStore Symbol_tradeOf)
  have c: "count mixedStore \<noteq> 0" by (simp add: mixedStore_def)
  have m: "map Symbol (live mixedStore) = [''BTC-USD'', ''ETH-USD'', ''BTC-USD'']"
    by (simp add: live_mixedStore Symbol_tradeOf)
  show ?thesis
    using absent_results_empty_or_no_match [OF disjI1 [OF storeInv_mixedStore], of "''SOL-USD''" 10]
      n c m
      storeInv_mixedStore by simp
qed

text \<open>
  Claim C5 as stated fails: a new store of capacity 3, and the same store after four
  records of two other symbols, answer \<open>GetRecentTrades\<close> for a third symbol with the
  same nil result, so the empty store is not reported distinctly from the missing symbol.
\<close>

theorem empty_and_no_match_same_result:
  "NewTradeStore 3 [] = Inr freshStore \<and> runCalls freshStore mixedCalls = Inr mixedStore
   \<and> count freshStore = 0 \<and> count mixedStore = 3
   \<and> GetRecentTrades freshStore ''SOL-USD'' 10 = Inr None
   \<and> GetRecentTrades mixedStore ''SOL-USD'' 10 = Inr None"
proof -
  have "GetRecentTrades freshStore ''SOL-USD'' 10 = Inr None"
    by (simp add: GetRecentTrades_def freshStore_def)
  moreover have "GetRecentTrades mixedStore ''SOL-USD'' 10 = Inr None"
    by code_simp
  ultimately show ?thesis
    using NewTradeStore_freshStore runCalls_mixedStore
    by (simp add: freshStore_def mixedStore_def)
qed

subsection \<open>Stamping of stored records\<close>

lemma storeInv_freshStore: "storeInv freshStore"
  by (simp add: storeInv_def freshStore_def)

lemma stampTrade_flags: "IsSnapshot (stampTrade now symbol mdReqId isSnapshot x)
    \<noteq> IsUpdate (stampTrade now symbol mdReqId isSnapshot x)"
  by (simp add: stampTrade_def)

lemma written_flags:
  assumes "t \<in> set (written c)"
  shows "IsSnapshot t \<noteq> IsUpdate t"
proof -
  from assms obtain x where
    "t = stampTrade (callNow c) (callSymbol c) (callMdReqId c) (callIsSnapshot c) x"
    by (auto simp: written_def)
  then show ?thesis by (simp add: stampTrade_def)
qed

lemma set_lastN: "set (lastN n xs) \<subseteq> set xs"
  by (simp add: lastN_def set_drop_subset)

text \<open>
  Claim C8. On every store reached from \<open>NewTradeStore\<close> (capacity at least 1) by
  \<open>AddTrades\<close> calls, one more call \<open>AddTrades(symbol, records, isSnapshot, mdReqId)\<close>
  returns without a panic and the store then holds the last \<open>C\<close> records of the old
  contents followed by the stamped input records. A stamped record has \<open>Timestamp\<close> the
  one \<open>now\<close> of the call, \<open>Symbol\<close>, \<open>MdReqId\<close> and \<open>IsSnapshot\<close> the arguments of the
  call and \<open>IsUpdate\<close> the negation of \<open>isSnapshot\<close>, whatever the input record had there,
  and \<open>Price\<close>, \<open>Size\<close>, \<open>Time\<close>, \<open>Aggressor\<close>, \<open>EntryType\<close>, \<open>Position\<close> and \<open>SeqNum\<close>
  of the input record. Every record the store holds has exactly one of \<open>IsSnapshot\<close> and
  \<open>IsUpdate\<close> true.
\<close>

theorem AddTrades_stamps_every_record:
  assumes "1 \<le> C" "NewTradeStore C f = Inr ts0" "runCalls ts0 cs = Inr ts"
  shows "\<exists>ts' r r'. AddTrades subNow now ts symbol xs isSnapshot mdReqId = Inr ts'
           \<and> GetAllTrades ts = Inr r \<and> GetAllTrades ts' = Inr r'
           \<and> elems r' = lastN (nat C)
                 (elems r @ map (stampTrade now symbol mdReqId isSnapshot) xs)
           \<and> (\<forall>x. stampTrade now symbol mdReqId isSnapshot x
                 = \<lparr>Timestamp = now, Symbol = symbol, Price = Price x, Size = Size x,
                    Time = Time x, Aggressor = Aggressor x, MdReqId = mdReqId,
                    EntryType = EntryType x, Position = Position x, SeqNum = SeqNum x,
                    IsSnapshot = isSnapshot, IsUpdate = (\<not> isSnapshot)\<rparr>)
           \<and> (\<forall>t \<in> set (elems r'). IsSnapshot t \<noteq> IsUpdate t)"
proof -
  from NewTradeStore_inv [OF assms(1), of f] assms(2) have
    n: "storeInv ts0" "maxSize ts0 = nat C" "live ts0 = []" by auto
  from runCalls_spec [OF n(1), of cs] assms(3) have
    r: "storeInv ts" "maxSize ts = nat C"
       "live ts = lastN (nat C) (concat (map written cs))"
    using n(2,3) by auto
  from AddTrades_spec [OF r(1), of subNow now symbol xs isSnapshot mdReqId] obtain ts' where
    a: "AddTrades subNow now ts symbol xs isSnapshot mdReqId = Inr ts'" "storeInv ts'"
       "live ts' = lastN (maxSize ts) (live ts @ map (stampTrade now symbol mdReqId isSnapshot) xs)"
    by blast
  from GetAllTrades_elems [OF r(1)] obtain g where g: "GetAllTrades ts = Inr g" "elems g = live ts"
    by blast
  from GetAllTrades_elems [OF a(2)] obtain g' where
    g': "GetAllTrades ts' = Inr g'" "elems g' = live ts'" by blast
  have old: "\<forall>t \<in> set (live ts). IsSnapshot t \<noteq> IsUpdate t"
    using r(3) set_lastN [of "nat C" "concat (map written cs)"] written_flags by auto
  have new: "\<forall>t \<in> set (live ts'). IsSnapshot t \<noteq> IsUpdate t"
  proof
    fix t assume "t \<in> set (live ts')"
    then have "t \<in> set (live ts) \<union> set (map (stampTrade now symbol mdReqId isSnapshot) xs)"
      using a(3) set_lastN [of "maxSize ts"
          "live ts @ map (stampTrade now symbol mdReqId isSnapshot) xs"] by auto
    then consider "t \<in> set (live ts)"
      | x where "t = stampTrade now symbol mdReqId isSnapshot x" by auto
    then show "IsSnapshot t \<noteq> IsUpdate t"
    proof cases
      case 1
      then show ?thesis using old by blast
    next
      case 2
      then show ?thesis by (simp add: stampTrade_def)
    qed
  qed
  have new': "\<forall>t \<in> set (elems g'). IsSnapshot t \<noteq> IsUpdate t"
    using new g'(2) by simp
  have st: "\<forall>x. stampTrade now symbol mdReqId isSnapshot x
                 = \<lparr>Timestamp = now, Symbol = symbol, Price = Price x, Size = Size x,
                    Time = Time x, Aggressor = Aggressor x, MdReqId = mdReqId,
                    EntryType = EntryType x, Position = Position x, SeqNum = SeqNum x,
                    IsSnapshot = isSnapshot, IsUpdate = (\<not> isSnapshot)\<rparr>"
    by (simp add: stampTrade_def)
  have e: "elems g' = lastN (nat C) (elems g @ map (stampTrade now symbol mdReqId isSnapshot) xs)"
    using g'(2) a(3) g(2) r(2) by simp
  show ?thesis
    using a(1) g(1) g'(1) e st new' by (intro exI conjI)
qed

text \<open>
  The property on the wrapped-around store of capacity 3: a snapshot call with an input
  record that already carries another symbol, request id and flags stores it under the
  call's symbol, request id and flags, and evicts the oldest record.
\<close>

theorem AddTrades_stamps_every_record_witness:
  "(1::int) \<le> 3 \<and> NewTradeStore 3 [] = Inr freshStore
   \<and> runCalls freshStore mixedCalls = Inr mixedStore
   \<and> (\<exists>ts' r'. AddTrades 8 9 mixedStore ''SOL-USD'' [tradeOf ''XRP-USD'' ''7''] True ''req-2''
            = Inr ts'
         \<and> GetAllTrades ts' = Inr r'
         \<and> elems r' = [tradeOf ''ETH-USD'' ''2'', tradeOf ''BTC-USD'' ''3'',
              \<lparr>Timestamp = 9, Symbol = ''SOL-USD'', Price = ''7'', Size = [], Time = [],
               Aggressor = [], MdReqId = ''req-2'', EntryType = [], Position = [], SeqNum = [],
               IsSnapshot = True, IsUpdate = False\<rparr>])"
proof -
  have h: "(1::int) \<le> 3" by simp
  from AddTrades_stamps_every_record [OF h NewTradeStore_freshStore runCalls_mixedStore,
      of 8 9 "''SOL-USD''" "[tradeOf ''XRP-USD'' ''7'']" True "''req-2''"]
  obtain ts' r r' where
    f: "AddTrades 8 9 mixedStore ''SOL-USD'' [tradeOf ''XRP-USD'' ''7''] True ''req-2'' = Inr ts'"
       "GetAllTrades mixedStore = Inr r" "GetAllTrades ts' = Inr r'"
       "elems r' = lastN (nat 3)
          (elems r @ map (stampTrade 9 ''SOL-USD'' ''req-2'' True) [tradeOf ''XRP-USD'' ''7''])"
       "\<forall>x. stampTrade 9 ''SOL-USD'' ''req-2'' True x
           = \<lparr>Timestamp = 9, Symbol = ''SOL-USD'', Price = Price x, Size = Size x,
              Time = Time x, Aggressor = Aggressor x, MdReqId = ''req-2'',
              EntryType = EntryType x, Position = Position x, SeqNum = SeqNum x,
              IsSnapshot = True, IsUpdate = (\<not> True)\<rparr>"
    by blast
  have r: "elems r = live mixedStore"
    using f(2) GetAllTrades_live [OF storeInv_mixedStore] by (auto simp: mixedStore_def)
  have x: "stampTrade 9 ''SOL-USD'' ''req-2'' True (tradeOf ''XRP-USD'' ''7'')
      = \<lparr>Timestamp = 9, Symbol = ''SOL-USD'', Price = ''7'', Size = [], Time = [],
         Aggressor = [], MdReqId = ''req-2'', EntryType = [], Position = [], SeqNum = [],
         IsSnapshot = True, IsUpdate = False\<rparr>"
    unfolding f(5) [rule_format]
    by (simp add: tradeOf_def stampTrade_def priced_def zeroTrade_def)
  have "elems r' = [tradeOf ''ETH-USD'' ''2'', tradeOf ''BTC-USD'' ''3'',
              \<lparr>Timestamp = 9, Symbol = ''SOL-USD'', Price = ''7'', Size = [], Time = [],
               Aggressor = [], MdReqId = ''req-2'', EntryType = [], Position = [], SeqNum = [],
               IsSnapshot = True, IsUpdate = False\<rparr>]"
    using f(4) unfolding r live_mixedStore by (simp add: lastN_def x)
  then show ?thesis using h NewTradeStore_freshStore runCalls_mixedStore f(1,3) by blast
qed

subsection \<open>Subscriptions\<close>

lemma SnapshotReceived_touch:
  "SnapshotReceived (touchSubscription subNow n isSnapshot sub)
     = (SnapshotReceived sub \<or> isSnapshot)"
  by (simp add: touchSubscription_def Let_def)

lemma applyCall_subscription:
  assumes "storeInv ts" "subscriptions ts reqId = Some sub"
  shows "\<exists>ts' sub'. applyCall ts c = Inr ts' \<and> storeInv ts'
           \<and> subscriptions ts' reqId = Some sub'
           \<and> SnapshotReceived sub'
               = (SnapshotReceived sub \<or> (callMdReqId c = reqId \<and> callIsSnapshot c))"
proof -
  from AddTrades_spec [OF assms(1), of "callSubNow c" "callNow c" "callSymbol c" "callTrades c"
      "callIsSnapshot c" "callMdReqId c"]
  obtain ts' where
    a: "applyCall ts c = Inr ts'" "storeInv ts'"
       "subscriptions ts' = (case subscriptions ts (callMdReqId c) of
                 None \<Rightarrow> subscriptions ts
               | Some sub \<Rightarrow> (subscriptions ts)
                   (callMdReqId c \<mapsto> touchSubscription (callSubNow c) (length (callTrades c))
                       (callIsSnapshot c) sub))"
    by (auto simp: applyCall_def)
  show ?thesis
  proof (cases "callMdReqId c = reqId")
    case True
    then show ?thesis using a assms(2) by (simp add: SnapshotReceived_touch)
  next
    case False
    then have "subscriptions ts' reqId = Some sub"
      using a(3) assms(2) by (simp split: option.splits)
    then show ?thesis using a(1,2) False by simp
  qed
qed

lemma runCalls_subscription:
  assumes "storeInv ts" "subscriptions ts reqId = Some sub"
  shows "\<exists>ts' sub'. runCalls ts cs = Inr ts' \<and> subscriptions ts' reqId = Some sub'
           \<and> SnapshotReceived sub'
               = (SnapshotReceived sub \<or> (\<exists>c \<in> set cs. callMdReqId c = reqId \<and> callIsSnapshot c))"
  using assms
proof (induction cs arbitrary: ts sub)
  case Nil
  then show ?case by simp
next
  case (Cons c cs)
  from applyCall_subscription [OF Cons.prems, of c] obtain ts1 sub1 where
    a: "applyCall ts c = Inr ts1" "storeInv ts1" "subscriptions ts1 reqId = Some sub1"
       "SnapshotReceived sub1
          = (SnapshotReceived sub \<or> (callMdReqId c = reqId \<and> callIsSnapshot c))" by blast
  from Cons.IH [OF a(2,3)] obtain ts' sub' where
    r: "runCalls ts1 cs = Inr ts'" "subscriptions ts' reqId = Some sub'"
       "SnapshotReceived sub'
          = (SnapshotReceived sub1 \<or> (\<exists>c \<in> set cs. callMdReqId c = reqId \<and> callIsSnapshot c))"
    by blast
  show ?case using a(1,4) r by auto
qed

text \<open>
  Claim C9. After \<open>AddSubscription\<close> registers a request id on a store that satisfies the
  representation invariant, any sequence of \<open>AddTrades\<close> calls runs without a panic and
  leaves the subscription registered, with \<open>SnapshotReceived\<close> true exactly when one of the
  calls so far had this request id and \<open>isSnapshot = true\<close>: false at creation, false
  while only updates arrive under the id, true from the first snapshot on.
\<close>

theorem SnapshotReceived_set_by_first_snapshot:
  assumes "storeInv ts"
  shows "\<exists>ts' sub. runCalls (AddSubscription now ts symbol subscriptionType reqId) cs = Inr ts'
           \<and> subscriptions ts' reqId = Some sub
           \<and> SnapshotReceived sub
               = (\<exists>c \<in> set cs. callMdReqId c = reqId \<and> callIsSnapshot c)"
proof -
  let ?ts1 = "AddSubscription now ts symbol subscriptionType reqId"
  let ?sub = "\<lparr>LastUpdate = now, TotalUpdates = 0, SubSymbol = symbol,
           SubscriptionType = subscriptionType, SubMdReqId = reqId,
           Active = True, SnapshotReceived = False\<rparr>"
  have w: "storeInv ?ts1" using assms by (simp add: AddSubscription_def)
  have s: "subscriptions ?ts1 reqId = Some ?sub" by (simp add: AddSubscription_def)
  from runCalls_subscription [OF w s, of cs] show ?thesis by simp
qed

text \<open>
  The property on a new store: two update calls leave the flag false; an update, a
  snapshot and another update leave it true.
\<close>

theorem SnapshotReceived_set_by_first_snapshot_witness:
  "storeInv freshStore
   \<and> (\<exists>ts' sub. runCalls (AddSubscription 5 freshStore ''BTC-USD'' ''1'' ''req-1'')
                   [updateCall, updateCall] = Inr ts'
         \<and> subscriptions ts' ''req-1'' = Some sub \<and> \<not> SnapshotReceived sub)
   \<and> (\<exists>ts' sub. runCalls (AddSubscription 5 freshStore ''BTC-USD'' ''1'' ''req-1'')
                   [updateCall, snapshotCall, updateCall] = Inr ts'
         \<and> subscriptions ts' ''req-1'' = Some sub \<and> SnapshotReceived sub)"
  using SnapshotReceived_set_by_first_snapshot [OF storeInv_freshStore,
      of 5 "''BTC-USD''" "''1''" "''req-1''" "[updateCall, updateCall]"]
    SnapshotReceived_set_by_first_snapshot [OF storeInv_freshStore,
      of 5 "''BTC-USD''" "''1''" "''req-1''" "[updateCall, snapshotCall, updateCall]"]
    storeInv_freshStore
  by (simp add: updateCall_def snapshotCall_def)

text \<open>
  Claim C10. \<open>AddSubscription\<close> stores a fresh subscription under the request id
  (\<open>Active\<close> true, \<open>SnapshotReceived\<close> false, \<open>TotalUpdates\<close> 0, \<open>LastUpdate\<close> the clock
  read), whatever was registered under that id before, and leaves every other request id
  as it was.
\<close>

theorem AddSubscription_replaces_existing:
  "subscriptions (AddSubscription now ts symbol subscriptionType mdReqId) mdReqId
     = Some \<lparr>LastUpdate = now, TotalUpdates = 0, SubSymbol = symbol,
             SubscriptionType = subscriptionType, SubMdReqId = mdReqId,
             Active = True, SnapshotReceived = False\<rparr>
   \<and> (\<forall>k. k \<noteq> mdReqId \<longrightarrow>
         subscriptions (AddSubscription now ts symbol subscriptionType mdReqId) k
           = subscriptions ts k)"
  by (simp add: AddSubscription_def)

text \<open>
  The property on a store where the request id is already registered with three updates
  and a received snapshot: both are reset, and the other registered id is untouched.
\<close>

theorem AddSubscription_replaces_existing_witness:
  "subscriptions staleStore ''req-1''
     = Some \<lparr>LastUpdate = 4, TotalUpdates = 3, SubSymbol = ''BTC-USD'',
         SubscriptionType = ''1'', SubMdReqId = ''req-1'', Active = True,
         SnapshotReceived = True\<rparr>
   \<and> subscriptions (AddSubscription 9 staleStore ''BTC-USD'' ''0'' ''req-1'') ''req-1''
     = Some \<lparr>LastUpdate = 9, TotalUpdates = 0, SubSymbol = ''BTC-USD'',
         SubscriptionType = ''0'', SubMdReqId = ''req-1'', Active = True,
         SnapshotReceived = False\<rparr>
   \<and> ''req-2'' \<noteq> ''req-1''
   \<and> subscriptions (AddSubscription 9 staleStore ''BTC-USD'' ''0'' ''req-1'') ''req-2''
     = subscriptions staleStore ''req-2''"
  using AddSubscription_replaces_existing [of 9 staleStore "''BTC-USD''" "''0''" "''req-1''"]
  by (simp add: staleStore_def)

subsection \<open>Substring search and the field extractor\<close>

lemma occursAt_prefix: "occursAt p s i \<longleftrightarrow> i \<le> length s \<and> prefix p (drop i s)"
proof
  assume o: "occursAt p s i"
  then have "p = take (length p) (drop i s)" by (simp add: occursAt_def)
  then have "prefix p (drop i s)" by (metis take_is_prefix)
  then show "i \<le> length s \<and> prefix p (drop i s)" using o by (simp add: occursAt_def)
next
  assume a: "i \<le> length s \<and> prefix p (drop i s)"
  then obtain r where r: "drop i s = p @ r" by (auto simp: prefix_def)
  then have "length (drop i s) = length p + length r" by simp
  then have "i + length p \<le> length s" using a by auto
  then show "occursAt p s i" using r by (simp add: occursAt_def)
qed

lemma occursAt_Cons_Suc: "occursAt p (c # s) (Suc i) = occursAt p s i"
  by (simp add: occursAt_def)

lemma occursAt_0: "occursAt p s 0 = prefix p s"
  by (simp add: occursAt_prefix)

lemma Index_None_iff: "Index s p = None \<longleftrightarrow> (\<forall>i. \<not> occursAt p s i)"
proof (induction s)
  case Nil
  show ?case by (auto simp: occursAt_def)
next
  case (Cons c s)
  show ?case
  proof (cases "prefix p (c # s)")
    case True
    then have "occursAt p (c # s) 0" by (simp add: occursAt_0)
    then show ?thesis using True by auto
  next
    case False
    have "(\<forall>i. \<not> occursAt p (c # s) i) \<longleftrightarrow> (\<forall>i. \<not> occursAt p s i)"
    proof
      assume a: "\<forall>i. \<not> occursAt p (c # s) i"
      show "\<forall>i. \<not> occursAt p s i" using a occursAt_Cons_Suc by blast
    next
      assume a: "\<forall>i. \<not> occursAt p s i"
      show "\<forall>i. \<not> occursAt p (c # s) i"
      proof
        fix i show "\<not> occursAt p (c # s) i"
          using a False occursAt_Cons_Suc [of p c s] occursAt_0 [of p "c # s"]
          by (cases i) auto
      qed
    qed
    then show ?thesis using False Cons.IH by simp
  qed
qed

lemma Index_Some_iff:
  "Index s p = Some i \<longleftrightarrow> occursAt p s i \<and> (\<forall>j<i. \<not> occursAt p s j)"
proof (induction s arbitrary: i)
  case Nil
  show ?case by (auto simp: occursAt_def)
next
  case (Cons c s)
  show ?case
  proof (cases "prefix p (c # s)")
    case True
    then have o: "occursAt p (c # s) 0" by (simp add: occursAt_0)
    show ?thesis
    proof
      assume "Index (c # s) p = Some i"
      then have "i = 0" using True by simp
      then show "occursAt p (c # s) i \<and> (\<forall>j<i. \<not> occursAt p (c # s) j)" using o by simp
    next
      assume "occursAt p (c # s) i \<and> (\<forall>j<i. \<not> occursAt p (c # s) j)"
      then have "i = 0" using o by (cases i) auto
      then show "Index (c # s) p = Some i" using True by simp
    qed
  next
    case False
    then have no0: "\<not> occursAt p (c # s) 0" by (simp add: occursAt_0)
    show ?thesis
    proof (cases i)
      case 0
      then show ?thesis using False no0 by auto
    next
      case (Suc k)
      have "(\<forall>j<Suc k. \<not> occursAt p (c # s) j) \<longleftrightarrow> (\<forall>j<k. \<not> occursAt p s j)"
      proof
        assume a: "\<forall>j<Suc k. \<not> occursAt p (c # s) j"
        show "\<forall>j<k. \<not> occursAt p s j"
        proof (intro allI impI)
          fix j assume "j < k"
          then have "\<not> occursAt p (c # s) (Suc j)" using a by simp
          then show "\<not> occursAt p s j" by (simp add: occursAt_Cons_Suc)
        qed
      next
        assume a: "\<forall>j<k. \<not> occursAt p s j"
        show "\<forall>j<Suc k. \<not> occursAt p (c # s) j"
        proof (intro allI impI)
          fix j assume j: "j < Suc k"
          show "\<not> occursAt p (c # s) j"
            using a j no0 by (cases j) (auto simp: occursAt_Cons_Suc)
        qed
      qed
      then show ?thesis using False Suc Cons.IH [of k] by (auto simp: occursAt_Cons_Suc)
    qed
  qed
qed

lemma Index_byte: "Index s [c] = IndexByte s c"
  by (induction s) auto

lemma IndexByte_None_iff: "IndexByte s c = None \<longleftrightarrow> c \<notin> set s"
  by (induction s) auto

lemma IndexByte_Some:
  "IndexByte s c = Some k \<Longrightarrow> k = length (takeWhile (\<lambda>x. x \<noteq> c) s) \<and> c \<in> set s"
  by (induction s arbitrary: k) (auto split: if_splits)

lemma IndexByte_takeWhile:
  "IndexByte s c = (if c \<in> set s then Some (length (takeWhile (\<lambda>x. x \<noteq> c) s)) else None)"
  by (induction s) auto

lemma take_length_takeWhile: "take (length (takeWhile P s)) s = takeWhile P s"
  by (induction s) auto

lemma extractSingleFieldValue_at:
  assumes "Index s p = Some i"
  shows "extractSingleFieldValue s p = takeWhile (\<lambda>c. c \<noteq> SOH) (drop (i + length p) s)"
proof -
  let ?r = "drop (i + length p) s"
  show ?thesis
  proof (cases "SOH \<in> set ?r")
    case True
    then have "Index ?r [SOH] = Some (length (takeWhile (\<lambda>c. c \<noteq> SOH) ?r))"
      by (simp add: Index_byte IndexByte_takeWhile)
    moreover have "sliceRange s (i + length p) (i + length p + length (takeWhile (\<lambda>c. c \<noteq> SOH) ?r))
        = takeWhile (\<lambda>c. c \<noteq> SOH) ?r"
      by (simp add: sliceRange_def drop_take take_length_takeWhile)
    ultimately show ?thesis using assms
      by (simp add: extractSingleFieldValue_def sliceFrom_def Let_def)
  next
    case False
    then have n: "Index ?r [SOH] = None" by (simp add: Index_byte IndexByte_takeWhile)
    have tw: "takeWhile (\<lambda>c. c \<noteq> SOH) ?r = ?r"
      using False by auto
    have "extractSingleFieldValue s p = ?r"
      using assms n by (simp add: extractSingleFieldValue_def sliceFrom_def Let_def)
    then show ?thesis unfolding tw .
  qed
qed


subsection \<open>Entry boundaries\<close>

declare Count.simps [simp del]

declare collectEntryStarts.simps [simp del]

declare scanSegment.simps [simp del]

lemma occursAt_nth:
  assumes "occursAt p s i" "k < length p"
  shows "s ! (i + k) = p ! k"
proof -
  have e: "take (length p) (drop i s) = p" and b: "i + length p \<le> length s"
    using assms(1) by (simp_all add: occursAt_def)
  have "take (length p) (drop i s) ! k = drop i s ! k" by (rule nth_take [OF assms(2)])
  also have "\<dots> = s ! (i + k)" using b by simp
  finally show ?thesis unfolding e by simp
qed

lemma upt_split: "a \<le> b \<Longrightarrow> b \<le> c \<Longrightarrow> [a..<c] = [a..<b] @ [b..<c]"
  using upt_add_eq_append [of a b "c - b"] by simp

lemma marker_no_overlap:
  assumes "occursAt ''269='' s i" "occursAt ''269='' s j" "i < j"
  shows "i + 4 \<le> j"
proof (rule ccontr)
  assume "\<not> i + 4 \<le> j"
  then consider "j = i + 1" | "j = i + 2" | "j = i + 3" using assms(3) by linarith
  then show False
  proof cases
    case 1
    have "s ! (i + 1) = CHR ''6''" using occursAt_nth [OF assms(1), of 1] by simp
    moreover have "s ! (j + 0) = CHR ''2''" using occursAt_nth [OF assms(2), of 0] by simp
    ultimately show False using 1 by simp
  next
    case 2
    have "s ! (i + 2) = CHR ''9''" using occursAt_nth [OF assms(1), of 2] by simp
    moreover have "s ! (j + 0) = CHR ''2''" using occursAt_nth [OF assms(2), of 0] by simp
    ultimately show False using 2 by simp
  next
    case 3
    have "s ! (i + 3) = CHR ''=''" using occursAt_nth [OF assms(1), of 3] by simp
    moreover have "s ! (j + 0) = CHR ''2''" using occursAt_nth [OF assms(2), of 0] by simp
    ultimately show False using 3 by simp
  qed
qed

lemma occursAt_drop:
  assumes "n \<le> length s"
  shows "occursAt p (drop n s) i \<longleftrightarrow> occursAt p s (n + i)"
  using assms by (auto simp: occursAt_def add.commute)

lemma occursAt_bound: "occursAt ''269='' s i \<Longrightarrow> i < length s"
  by (simp add: occursAt_def)

lemma filter_upt_none:
  assumes "\<forall>k. a \<le> k \<and> k < b \<longrightarrow> \<not> P k"
  shows "filter P [a..<b] = []"
  using assms by (simp add: filter_empty_conv)

lemma collectEntryStarts_spec:
  "collectEntryStarts rawMsg searchFrom entryStarts
     = entryStarts @ filter (occursAt ''269='' rawMsg) [searchFrom..<length rawMsg]"
proof (induction rawMsg searchFrom entryStarts rule: collectEntryStarts.induct)
  case (1 rawMsg searchFrom entryStarts)
  let ?occ = "occursAt ''269='' rawMsg"
  show ?case
  proof (cases "Index (sliceFrom rawMsg searchFrom) ''269=''")
    case None
    have res: "collectEntryStarts rawMsg searchFrom entryStarts = entryStarts"
      using None by (subst collectEntryStarts.simps) simp
    have "\<not> ?occ k" if k: "searchFrom \<le> k" "k < length rawMsg" for k
    proof
      assume o: "?occ k"
      have "searchFrom \<le> length rawMsg" using k by simp
      then have "occursAt ''269='' (drop searchFrom rawMsg) (k - searchFrom)"
        using o k by (simp add: occursAt_drop)
      then show False using None by (simp add: Index_None_iff sliceFrom_def)
    qed
    then have "filter ?occ [searchFrom..<length rawMsg] = []"
      by (intro filter_upt_none) blast
    then show ?thesis using res by simp
  next
    case (Some pos)
    have step: "collectEntryStarts rawMsg searchFrom entryStarts
        = collectEntryStarts rawMsg (searchFrom + (pos + 4)) (entryStarts @ [searchFrom + pos])"
      using Some by (subst collectEntryStarts.simps) simp
    have ne: "sliceFrom rawMsg searchFrom \<noteq> []"
      using Some by (cases "sliceFrom rawMsg searchFrom") auto
    then have sf: "searchFrom \<le> length rawMsg" by (simp add: sliceFrom_def)
    from Some have f: "occursAt ''269='' (drop searchFrom rawMsg) pos"
      "\<forall>j<pos. \<not> occursAt ''269='' (drop searchFrom rawMsg) j"
      by (simp_all add: Index_Some_iff sliceFrom_def)
    have hit: "?occ (searchFrom + pos)" using f(1) sf by (simp add: occursAt_drop)
    then have end4: "searchFrom + pos + 4 \<le> length rawMsg" by (simp add: occursAt_def)
    have before: "\<not> ?occ k" if "searchFrom \<le> k" "k < searchFrom + pos" for k
    proof -
      have "k - searchFrom < pos" using that by simp
      then have "\<not> occursAt ''269='' (drop searchFrom rawMsg) (k - searchFrom)" using f(2) by blast
      then show ?thesis using sf that by (simp add: occursAt_drop)
    qed
    have after: "\<not> ?occ k" if "searchFrom + pos < k" "k < searchFrom + pos + 4" for k
    proof
      assume "?occ k"
      from marker_no_overlap [OF hit this that(1)] that(2) show False by simp
    qed
    have split: "[searchFrom..<length rawMsg]
        = [searchFrom..<searchFrom + pos] @ [searchFrom + pos]
          @ [searchFrom + pos + 1..<searchFrom + pos + 4] @ [searchFrom + pos + 4..<length rawMsg]"
    proof -
      have "[searchFrom..<length rawMsg]
          = [searchFrom..<searchFrom + pos] @ [searchFrom + pos..<length rawMsg]"
        using end4 by (intro upt_split) simp_all
      also have "[searchFrom + pos..<length rawMsg]
          = (searchFrom + pos) # [searchFrom + pos + 1..<length rawMsg]"
        using end4 by (simp add: upt_conv_Cons)
      also have "[searchFrom + pos + 1..<length rawMsg]
          = [searchFrom + pos + 1..<searchFrom + pos + 4] @ [searchFrom + pos + 4..<length rawMsg]"
        using end4 by (intro upt_split) simp_all
      finally show ?thesis by simp
    qed
    have f1: "filter ?occ [searchFrom..<searchFrom + pos] = []"
      by (intro filter_upt_none) (use before in blast)
    have f2: "filter ?occ [searchFrom + pos + 1..<searchFrom + pos + 4] = []"
      by (intro filter_upt_none) (use after in auto)
    have "filter ?occ [searchFrom..<length rawMsg]
        = (searchFrom + pos) # filter ?occ [searchFrom + pos + 4..<length rawMsg]"
      unfolding split using f1 f2 hit by simp
    moreover have "collectEntryStarts rawMsg (searchFrom + (pos + 4)) (entryStarts @ [searchFrom + pos])
        = (entryStarts @ [searchFrom + pos])
          @ filter ?occ [searchFrom + (pos + 4)..<length rawMsg]"
      by (rule "1.IH" [OF Some])
    ultimately show ?thesis using step by (simp add: add.assoc)
  qed
qed

lemma Count_zero_iff: "Count s ''269='' = 0 \<longleftrightarrow> Index s ''269='' = None"
  by (subst Count.simps) (simp split: option.splits)

lemma sorted_filter_upt: "sorted_wrt (<) (filter P [a..<b])"
  by (simp add: sorted_wrt_filter)

text \<open>
  Claim C6. For every message, \<open>findEntryBoundaries\<close> returns the offsets of all the
  occurrences of \<open>269=\<close> in the message, each once, in strictly increasing order; it
  returns the nil slice exactly when \<open>269=\<close> occurs nowhere, which is not an error.
\<close>

theorem findEntryBoundaries_all_occurrences:
  "elems (findEntryBoundaries rawMsg)
     = filter (occursAt ''269='' rawMsg) [0..<length rawMsg]
   \<and> sorted_wrt (<) (elems (findEntryBoundaries rawMsg))
   \<and> set (elems (findEntryBoundaries rawMsg)) = {i. occursAt ''269='' rawMsg i}
   \<and> (findEntryBoundaries rawMsg = None \<longleftrightarrow> (\<forall>i. \<not> occursAt ''269='' rawMsg i))"
proof -
  let ?occ = "occursAt ''269='' rawMsg"
  have none: "findEntryBoundaries rawMsg = None \<longleftrightarrow> (\<forall>i. \<not> ?occ i)"
    by (simp add: findEntryBoundaries_def Count_zero_iff Index_None_iff)
  have e: "elems (findEntryBoundaries rawMsg) = filter ?occ [0..<length rawMsg]"
  proof (cases "findEntryBoundaries rawMsg")
    case None
    then have "\<forall>i. \<not> ?occ i" using none by simp
    then have "filter ?occ [0..<length rawMsg] = []" by (simp add: filter_empty_conv)
    then show ?thesis using None by simp
  next
    case (Some xs)
    then have "xs = collectEntryStarts rawMsg 0 []"
      by (simp add: findEntryBoundaries_def split: if_splits)
    then show ?thesis using Some by (simp add: collectEntryStarts_spec)
  qed
  have s: "set (filter ?occ [0..<length rawMsg]) = {i. ?occ i}"
    using occursAt_bound by auto
  show ?thesis using none e s by (simp add: sorted_filter_upt)
qed

subsection \<open>Default position\<close>

declare decimalDigits.simps [simp del]

lemma digit_value:
  assumes "d < 10"
  shows "(of_char (''0123456789'' ! d) :: nat) = 48 + d"
proof -
  from assms have "d = 0 \<or> d = 1 \<or> d = 2 \<or> d = 3 \<or> d = 4 \<or> d = 5 \<or> d = 6
    \<or> d = 7 \<or> d = 8 \<or> d = 9" by arith
  then show ?thesis by (elim disjE) simp_all
qed

lemma decimalValue_append:
  "decimalValue (s @ [c]) = 10 * decimalValue s + (of_char c - 48)"
  by (simp add: decimalValue_def)

lemma decimalValue_decimalDigits: "decimalValue (decimalDigits n) = n"
proof (induction n rule: decimalDigits.induct)
  case (1 n)
  show ?case
  proof (cases "n < 10")
    case True
    then have "decimalDigits n = [''0123456789'' ! n]" by (subst decimalDigits.simps) simp
    then show ?thesis using digit_value [OF True] by (simp add: decimalValue_def)
  next
    case False
    then have d: "decimalDigits n = decimalDigits (n div 10) @ [''0123456789'' ! (n mod 10)]"
      by (subst decimalDigits.simps) simp
    have "n mod 10 < 10" by simp
    from digit_value [OF this] "1.IH" [OF False] show ?thesis
      unfolding d decimalValue_append by simp
  qed
qed

lemma wrapInt_id: "- (2 ^ 63) \<le> x \<Longrightarrow> x < 2 ^ 63 \<Longrightarrow> wrapInt x = x"
  by (simp add: wrapInt_def)

text \<open>
  Claim C7. When the record \<open>parseTradeFromSegmentFast\<close> returns for batch index \<open>i\<close>
  has entry type \<open>0\<close> (bid) or \<open>1\<close> (offer) and the scan of the segment left \<open>Position\<close>
  empty, the returned \<open>Position\<close> is \<open>strconv.Itoa(i + 1)\<close>, the decimal digits of
  \<open>i + 1\<close>. A batch index is a slice index, so \<open>0 \<le> i\<close> and \<open>i + 1\<close> does not overflow.
\<close>

theorem default_position_is_index_plus_one:
  assumes "0 \<le> entryIndex" "entryIndex < 2 ^ 63 - 1"
    and "EntryType (parseTradeFromSegmentFast segment symbol mdReqId isSnapshot seqNum
            entryIndex timestamp) = ''0''
         \<or> EntryType (parseTradeFromSegmentFast segment symbol mdReqId isSnapshot seqNum
            entryIndex timestamp) = ''1''"
    and "Position (scanSegment segment 0
            (initTrade timestamp symbol mdReqId isSnapshot seqNum)) = []"
  shows "Position (parseTradeFromSegmentFast segment symbol mdReqId isSnapshot seqNum
            entryIndex timestamp) = Itoa (entryIndex + 1)
       \<and> decimalValue (Position (parseTradeFromSegmentFast segment symbol mdReqId isSnapshot
            seqNum entryIndex timestamp)) = nat (entryIndex + 1)"
proof -
  let ?t = "scanSegment segment 0 (initTrade timestamp symbol mdReqId isSnapshot seqNum)"
  let ?r = "parseTradeFromSegmentFast segment symbol mdReqId isSnapshot seqNum entryIndex timestamp"
  have et: "EntryType ?r = EntryType ?t"
    by (simp add: parseTradeFromSegmentFast_def Let_def)
  then have "EntryType ?t = ''0'' \<or> EntryType ?t = ''1''" using assms(3) by simp
  then have r: "?r = ?t\<lparr>Position := Itoa (wrapInt (entryIndex + 1))\<rparr>"
    using assms(4) by (simp add: parseTradeFromSegmentFast_def Let_def)
  have w: "wrapInt (entryIndex + 1) = entryIndex + 1"
    using assms(1,2) by (intro wrapInt_id) simp_all
  have p: "Position ?r = Itoa (entryIndex + 1)" using r w by simp
  have "Itoa (entryIndex + 1) = decimalDigits (nat (entryIndex + 1))"
    using assms(1) by (simp add: Itoa_def)
  then have "decimalValue (Position ?r) = nat (entryIndex + 1)"
    using p by (simp add: decimalValue_decimalDigits)
  then show ?thesis using p by simp
qed

lemma scan_bidSegment:
  "scanSegment bidSegment 0 (initTrade 7 ''BTC-USD'' ''req-1'' False ''12'')
     = \<lparr>Timestamp = 7, Symbol = ''BTC-USD'', Price = ''49999.00'', Size = ''1.0'', Time = [],
        Aggressor = [], MdReqId = ''req-1'', EntryType = ''0'', Position = [], SeqNum = ''12'',
        IsSnapshot = False, IsUpdate = True\<rparr>"
  by code_simp

text \<open>
  The example of the specification: the bid segment without tag 290, parsed as entry 0
  of its batch, gets position \<open>1\<close>.
\<close>

theorem default_position_is_index_plus_one_witness:
  "(0::int) \<le> 0 \<and> (0::int) < 2 ^ 63 - 1
   \<and> EntryType (parseTradeFromSegmentFast bidSegment ''BTC-USD'' ''req-1'' False ''12'' 0 7) = ''0''
   \<and> Position (scanSegment bidSegment 0 (initTrade 7 ''BTC-USD'' ''req-1'' False ''12'')) = []
   \<and> Position (parseTradeFromSegmentFast bidSegment ''BTC-USD'' ''req-1'' False ''12'' 0 7) = ''1''"
proof -
  have h1: "(0::int) \<le> 0" and h2: "(0::int) < 2 ^ 63 - 1" by simp_all
  have h4: "Position (scanSegment bidSegment 0 (initTrade 7 ''BTC-USD'' ''req-1'' False ''12'')) = []"
    by (simp add: scan_bidSegment)
  have h3: "EntryType (parseTradeFromSegmentFast bidSegment ''BTC-USD'' ''req-1'' False ''12'' 0 7)
      = ''0''"
    by (simp add: parseTradeFromSegmentFast_def scan_bidSegment)
  have i: "Itoa (0 + 1) = ''1''" by (simp add: Itoa_def decimalDigits.simps)
  from default_position_is_index_plus_one [OF h1 h2 disjI1 [OF h3] h4]
  show ?thesis using h1 h2 h3 h4 i by simp
qed


text \<open>
  Claim C6 on a message with a bid, an offer and a trade entry, and on a message without
  entries.
\<close>

theorem findEntryBoundaries_all_occurrences_witness:
  "findEntryBoundaries threeEntries = Some [11, 23, 35]
   \<and> findEntryBoundaries ''35=W'' = None"
proof -
  have a: "filter (occursAt ''269='' threeEntries) [0..<length threeEntries] = [11, 23, 35]"
    by code_simp
  have b: "filter (occursAt ''269='' ''35=W'') [0..<length ''35=W''] = []"
    by code_simp
  from findEntryBoundaries_all_occurrences [of threeEntries] a
  have "elems (findEntryBoundaries threeEntries) = [11, 23, 35]" by simp
  then have 1: "findEntryBoundaries threeEntries = Some [11, 23, 35]"
    by (cases "findEntryBoundaries threeEntries") simp_all
  from findEntryBoundaries_all_occurrences [of "''35=W''"] b
  have "\<forall>i. \<not> occursAt ''269='' ''35=W'' i"
    by (metis (no_types, lifting) empty_iff empty_set mem_Collect_eq)
  then have 2: "findEntryBoundaries ''35=W'' = None"
    using findEntryBoundaries_all_occurrences [of "''35=W''"] by simp
  show ?thesis using 1 2 by simp
qed

subsection \<open>The single pass on a segment written from its fields\<close>

lemma IndexByte_append_hit: "c \<notin> set a \<Longrightarrow> IndexByte (a @ c # b) c = Some (length a)"
  by (induction a) auto

lemma renderSegment_Cons: "renderSegment (f # fs) final = renderField f @ renderSegment fs final"
  by (simp add: renderSegment_def)

lemma fieldsOf_Cons: "fieldsOf (f # fs) final = f # fieldsOf fs final"
  by (simp add: fieldsOf_def)

lemma scanSegment_end: "scanSegment segment (length segment) trade = trade"
  by (subst scanSegment.simps) simp

lemma scanSegment_open:
  assumes tg: "CHR ''='' \<notin> set tag" and vl: "SOH \<notin> set v"
  shows "scanSegment (pre @ tag @ CHR ''='' # v) (length pre) trade = assignField tag v trade"
proof -
  let ?seg = "pre @ tag @ CHR ''='' # v"
  have lt: "length pre < length ?seg" by simp
  have s1: "sliceFrom ?seg (length pre) = tag @ CHR ''='' # v" by (simp add: sliceFrom_def)
  have e: "IndexByte (sliceFrom ?seg (length pre)) CHR ''='' = Some (length tag)"
    unfolding s1 by (rule IndexByte_append_hit [OF tg])
  have tagslice: "sliceRange ?seg (length pre) (length tag + length pre) = tag"
    by (simp add: sliceRange_def)
  have s2: "sliceFrom ?seg (length tag + length pre + 1) = v"
  proof -
    have "?seg = (pre @ tag @ [CHR ''='']) @ v" by simp
    moreover have "length (pre @ tag @ [CHR ''='']) = length tag + length pre + 1" by simp
    ultimately show ?thesis unfolding sliceFrom_def by (metis append_eq_conv_conj)
  qed
  have so: "IndexByte (sliceFrom ?seg (length tag + length pre + 1)) SOH = None"
    unfolding s2 using vl by (simp add: IndexByte_None_iff)
  have "scanSegment ?seg (length pre) trade
      = scanSegment ?seg (length ?seg) (assignField tag v trade)"
    using lt e so tagslice s2
    by (subst scanSegment.simps) (simp add: Let_def)
  then show ?thesis unfolding scanSegment_end .
qed

lemma scanSegment_render:
  assumes "list_all (\<lambda>f. CHR ''='' \<notin> set (fst f) \<and> SOH \<notin> set (snd f)) (fieldsOf fs final)"
  shows "scanSegment (pre @ renderSegment fs final) (length pre) trade
     = foldl (\<lambda>t f. assignField (fst f) (snd f) t) trade (fieldsOf fs final)"
  using assms
proof (induction fs arbitrary: pre trade)
  case Nil
  show ?case
  proof (cases final)
    case None
    then show ?thesis using scanSegment_end [of pre trade]
      by (simp add: renderSegment_def renderOpenField_def fieldsOf_def)
  next
    case (Some f)
    obtain tag v where f: "f = (tag, v)" by (cases f)
    have "CHR ''='' \<notin> set tag" "SOH \<notin> set v"
      using Nil.prems Some f by (simp_all add: fieldsOf_def)
    from scanSegment_open [OF this, of pre trade] show ?thesis
      by (simp add: renderSegment_def renderOpenField_def fieldsOf_def Some f)
  qed
next
  case (Cons f fs)
  obtain tag v where f: "f = (tag, v)" by (cases f)
  have tg: "CHR ''='' \<notin> set tag" and vl: "SOH \<notin> set v"
    using Cons.prems f by (simp_all add: fieldsOf_Cons)
  let ?rest = "renderSegment fs final"
  let ?seg = "pre @ renderSegment (f # fs) final"
  have seg: "?seg = pre @ tag @ CHR ''='' # v @ SOH # ?rest"
    by (simp add: renderSegment_Cons renderField_def f)
  have lt: "length pre < length ?seg" unfolding seg by simp
  have s1: "sliceFrom ?seg (length pre) = tag @ CHR ''='' # v @ SOH # ?rest"
    unfolding seg by (simp add: sliceFrom_def)
  have e: "IndexByte (sliceFrom ?seg (length pre)) CHR ''='' = Some (length tag)"
    unfolding s1 by (rule IndexByte_append_hit [OF tg])
  have tagslice: "sliceRange ?seg (length pre) (length tag + length pre) = tag"
    unfolding seg by (simp add: sliceRange_def)
  have s2: "sliceFrom ?seg (length tag + length pre + 1) = v @ SOH # ?rest"
  proof -
    have "?seg = (pre @ tag @ [CHR ''='']) @ v @ SOH # ?rest" unfolding seg by simp
    moreover have "length (pre @ tag @ [CHR ''='']) = length tag + length pre + 1" by simp
    ultimately show ?thesis unfolding sliceFrom_def by (metis append_eq_conv_conj)
  qed
  have so: "IndexByte (sliceFrom ?seg (length tag + length pre + 1)) SOH = Some (length v)"
    unfolding s2 by (rule IndexByte_append_hit [OF vl])
  have valslice: "sliceRange ?seg (length tag + length pre + 1) (length tag + length pre + 1 + length v) = v"
  proof -
    have "?seg = (pre @ tag @ [CHR ''='']) @ v @ SOH # ?rest" unfolding seg by simp
    then have "take (length tag + length pre + 1 + length v) ?seg = (pre @ tag @ [CHR ''='']) @ v"
      by (simp add: add.commute add.left_commute)
    then show ?thesis unfolding sliceRange_def by (simp add: add.commute)
  qed
  have lf: "length (renderField f) = length tag + length v + 2"
    by (simp add: renderField_def f)
  have np: "length tag + length pre + 1 + length v + 1 = length (pre @ renderField f)"
    by (simp add: lf)
  have "scanSegment ?seg (length pre) trade
      = scanSegment ?seg (length tag + length pre + 1 + length v + 1) (assignField tag v trade)"
    using lt e so tagslice valslice
    by (subst scanSegment.simps) (simp add: Let_def)
  then have step: "scanSegment ?seg (length pre) trade
      = scanSegment ?seg (length (pre @ renderField f)) (assignField tag v trade)"
    unfolding np .
  have seg': "?seg = (pre @ renderField f) @ renderSegment fs final"
    by (simp add: renderSegment_Cons)
  have "list_all (\<lambda>f. CHR ''='' \<notin> set (fst f) \<and> SOH \<notin> set (snd f)) (fieldsOf fs final)"
    using Cons.prems by (simp add: fieldsOf_Cons)
  from Cons.IH [OF this, of "pre @ renderField f" "assignField tag v trade"]
  show ?case unfolding step seg' [symmetric] by (simp add: f fieldsOf_Cons)
qed

subsection \<open>The field extractor on a segment written from its fields\<close>

lemma occursAt_append_shift: "occursAt p (a @ b) (length a + j) = occursAt p b j"
  using occursAt_drop [of "length a" "a @ b" p j] by simp

lemma Index_append_skip:
  assumes "\<forall>i<length a. \<not> occursAt p (a @ b) i"
  shows "Index (a @ b) p = map_option (\<lambda>j. length a + j) (Index b p)"
proof (cases "Index b p")
  case None
  then have nb: "\<forall>j. \<not> occursAt p b j" by (simp add: Index_None_iff)
  have "\<not> occursAt p (a @ b) i" for i
  proof (cases "i < length a")
    case True
    then show ?thesis using assms by blast
  next
    case False
    then have "i = length a + (i - length a)" by simp
    then show ?thesis using nb occursAt_append_shift [of p a b "i - length a"] by simp
  qed
  then have "Index (a @ b) p = None" by (simp add: Index_None_iff)
  then show ?thesis using None by simp
next
  case (Some j)
  then have o: "occursAt p b j" and f: "\<forall>k<j. \<not> occursAt p b k"
    by (simp_all add: Index_Some_iff)
  have o': "occursAt p (a @ b) (length a + j)" using o by (simp add: occursAt_append_shift)
  have f': "\<not> occursAt p (a @ b) i" if "i < length a + j" for i
  proof (cases "i < length a")
    case True
    then show ?thesis using assms by blast
  next
    case False
    then have i: "i = length a + (i - length a)" and "i - length a < j" using that by simp_all
    then have "\<not> occursAt p b (i - length a)" using f by blast
    then show ?thesis using i occursAt_append_shift [of p a b "i - length a"] by simp
  qed
  have "Index (a @ b) p = Some (length a + j)"
    using o' f' by (simp add: Index_Some_iff)
  then show ?thesis using Some by simp
qed

lemma extractSingleFieldValue_skip:
  assumes "\<forall>i<length a. \<not> occursAt p (a @ b) i"
  shows "extractSingleFieldValue (a @ b) p = extractSingleFieldValue b p"
proof (cases "Index b p")
  case None
  then have "Index (a @ b) p = None" using Index_append_skip [OF assms] by simp
  then show ?thesis using None by (simp add: extractSingleFieldValue_def)
next
  case (Some j)
  then have "Index (a @ b) p = Some (length a + j)" using Index_append_skip [OF assms] by simp
  from extractSingleFieldValue_at [OF this] extractSingleFieldValue_at [OF Some]
  show ?thesis by (simp add: add.assoc)
qed

lemma field_eq_position:
  assumes "CHR ''='' \<notin> set tag" "CHR ''='' \<notin> set v"
    and "m < length (tag @ CHR ''='' # v @ [SOH])"
    and "(tag @ CHR ''='' # v @ [SOH]) ! m = CHR ''=''"
  shows "m = length tag"
proof (rule ccontr)
  assume ne: "m \<noteq> length tag"
  show False
  proof (cases "m < length tag")
    case True
    then have "tag ! m = CHR ''=''" using assms(4) by (simp add: nth_append)
    then show False using assms(1) True by (metis nth_mem)
  next
    case False
    with ne have gt: "length tag < m" by simp
    then have e: "(v @ [SOH]) ! (m - length tag - 1) = CHR ''=''"
      using assms(4) by (simp add: nth_append nth_Cons')
    show False
    proof (cases "m - length tag - 1 < length v")
      case True
      then have "v ! (m - length tag - 1) = CHR ''=''" using e by (simp add: nth_append)
      then show False using assms(2) True by (metis nth_mem)
    next
      case False
      then have "m - length tag - 1 = length v" using assms(3) gt by simp
      then show False using e by (simp add: SOH_def)
    qed
  qed
qed

lemma field_no_occurrence:
  assumes eqt: "CHR ''='' \<notin> set tag" and eqv: "CHR ''='' \<notin> set v"
    and sk: "SOH \<notin> set k" and ns: "\<not> suffix k tag"
    and i: "i < length (tag @ CHR ''='' # v @ [SOH])"
  shows "\<not> occursAt (k @ ''='') ((tag @ CHR ''='' # v @ [SOH]) @ rest) i"
proof
  let ?F = "tag @ CHR ''='' # v @ [SOH]"
  let ?p = "k @ ''=''"
  assume o: "occursAt ?p (?F @ rest) i"
  have nth: "(?F @ rest) ! (i + j) = ?p ! j" if "j < length ?p" for j
    by (rule occursAt_nth [OF o that])
  show False
  proof (cases "i + length k < length ?F")
    case True
    have "(?F @ rest) ! (i + length k) = CHR ''=''" using nth [of "length k"] by simp
    then have "?F ! (i + length k) = CHR ''=''" using True by (simp only: nth_append if_True)
    from field_eq_position [OF eqt eqv True this] have ik: "i + length k = length tag" .
    have "drop i tag = k"
    proof (rule nth_equalityI)
      show "length (drop i tag) = length k" using ik by simp
    next
      fix j assume "j < length (drop i tag)"
      then have j: "j < length k" using ik by simp
      then have "(?F @ rest) ! (i + j) = k ! j" using nth [of j] by (simp add: nth_append)
      moreover have "(?F @ rest) ! (i + j) = tag ! (i + j)" using j ik by (simp add: nth_append)
      ultimately show "drop i tag ! j = k ! j" using j ik by simp
    qed
    then have "suffix k tag" by (metis suffix_drop)
    then show False using ns by simp
  next
    case False
    let ?j = "length ?F - 1 - i"
    have j: "?j < length k" using False i by simp
    have "i + ?j = length ?F - 1" using i by simp
    then have "(?F @ rest) ! (i + ?j) = SOH" by (simp add: nth_append)
    moreover have "(?F @ rest) ! (i + ?j) = k ! ?j" using nth [of ?j] j by (simp add: nth_append)
    ultimately have "k ! ?j = SOH" by simp
    then show False using sk j by (metis nth_mem)
  qed
qed

lemma takeWhile_stop: "c \<notin> set v \<Longrightarrow> takeWhile (\<lambda>x. x \<noteq> c) (v @ c # r) = v"
  by (induction v) auto

lemma renderField_eq: "renderField (tag, v) = tag @ CHR ''='' # v @ [SOH]"
  by (simp add: renderField_def)

lemma occursAt_append_left: "occursAt p a i \<Longrightarrow> occursAt p (a @ b) i"
  by (auto simp: occursAt_def)

lemma open_field_no_occurrence:
  assumes eqt: "CHR ''='' \<notin> set tag" and eqv: "CHR ''='' \<notin> set v"
    and sk: "SOH \<notin> set k" and ns: "\<not> suffix k tag"
  shows "\<not> occursAt (k @ ''='') (tag @ CHR ''='' # v) i"
proof
  assume o: "occursAt (k @ ''='') (tag @ CHR ''='' # v) i"
  then have i: "i < length (tag @ CHR ''='' # v @ [SOH])" by (simp add: occursAt_def)
  have "occursAt (k @ ''='') ((tag @ CHR ''='' # v) @ [SOH]) i"
    by (rule occursAt_append_left [OF o])
  then have "occursAt (k @ ''='') ((tag @ CHR ''='' # v @ [SOH]) @ []) i" by simp
  then show False using field_no_occurrence [OF eqt eqv sk ns i, of "[]"] by simp
qed

lemma extractSingleFieldValue_prefix:
  assumes "SOH \<notin> set v"
  shows "extractSingleFieldValue (k @ CHR ''='' # v @ SOH # r) (k @ ''='') = v"
    and "extractSingleFieldValue (k @ CHR ''='' # v) (k @ ''='') = v"
proof -
  have p1: "prefix (k @ ''='') (k @ CHR ''='' # v @ SOH # r)" by simp
  then have "occursAt (k @ ''='') (k @ CHR ''='' # v @ SOH # r) 0" by (simp add: occursAt_0)
  then have "Index (k @ CHR ''='' # v @ SOH # r) (k @ ''='') = Some 0"
    by (simp add: Index_Some_iff)
  from extractSingleFieldValue_at [OF this]
  show "extractSingleFieldValue (k @ CHR ''='' # v @ SOH # r) (k @ ''='') = v"
    by (simp add: takeWhile_stop [OF assms])
  have p2: "prefix (k @ ''='') (k @ CHR ''='' # v)" by simp
  then have "occursAt (k @ ''='') (k @ CHR ''='' # v) 0" by (simp add: occursAt_0)
  then have "Index (k @ CHR ''='' # v) (k @ ''='') = Some 0" by (simp add: Index_Some_iff)
  from extractSingleFieldValue_at [OF this]
  show "extractSingleFieldValue (k @ CHR ''='' # v) (k @ ''='') = v"
    using assms by auto
qed

lemma extractSingleFieldValue_render:
  assumes "list_all (\<lambda>f. CHR ''='' \<notin> set (fst f) \<and> CHR ''='' \<notin> set (snd f) \<and> SOH \<notin> set (snd f)
                         \<and> (suffix k (fst f) = (fst f = k))) (fieldsOf fs final)"
    and "SOH \<notin> set k"
  shows "extractSingleFieldValue (renderSegment fs final) (k @ ''='')
     = (case map_of (fieldsOf fs final) k of None \<Rightarrow> [] | Some v \<Rightarrow> v)"
  using assms(1)
proof (induction fs)
  case Nil
  show ?case
  proof (cases final)
    case None
    then show ?thesis
      by (simp add: renderSegment_def renderOpenField_def fieldsOf_def extractSingleFieldValue_def)
  next
    case (Some f)
    obtain tag v where f: "f = (tag, v)" by (cases f)
    have c: "CHR ''='' \<notin> set tag" "CHR ''='' \<notin> set v" "SOH \<notin> set v"
      "suffix k tag = (tag = k)"
      using Nil.prems Some f by (simp_all add: fieldsOf_def)
    have seg: "renderSegment [] final = tag @ CHR ''='' # v"
      by (simp add: renderSegment_def renderOpenField_def Some f)
    show ?thesis
    proof (cases "tag = k")
      case True
      then show ?thesis unfolding seg
        using extractSingleFieldValue_prefix(2) [OF c(3), of k]
        by (simp add: fieldsOf_def Some f)
    next
      case False
      then have ns: "\<not> suffix k tag" using c(4) by simp
      have "\<forall>i. \<not> occursAt (k @ ''='') (tag @ CHR ''='' # v) i"
        using open_field_no_occurrence [OF c(1,2) assms(2) ns] by blast
      then have "Index (tag @ CHR ''='' # v) (k @ ''='') = None" by (simp add: Index_None_iff)
      then show ?thesis unfolding seg using False
        by (simp add: extractSingleFieldValue_def fieldsOf_def Some f)
    qed
  qed
next
  case (Cons f fs)
  obtain tag v where f: "f = (tag, v)" by (cases f)
  have c: "CHR ''='' \<notin> set tag" "CHR ''='' \<notin> set v" "SOH \<notin> set v" "suffix k tag = (tag = k)"
    using Cons.prems f by (simp_all add: fieldsOf_Cons)
  have rest: "list_all (\<lambda>f. CHR ''='' \<notin> set (fst f) \<and> CHR ''='' \<notin> set (snd f) \<and> SOH \<notin> set (snd f)
                         \<and> (suffix k (fst f) = (fst f = k))) (fieldsOf fs final)"
    using Cons.prems by (simp add: fieldsOf_Cons)
  have seg: "renderSegment (f # fs) final = (tag @ CHR ''='' # v @ [SOH]) @ renderSegment fs final"
    by (simp add: renderSegment_Cons f renderField_eq)
  show ?case
  proof (cases "tag = k")
    case True
    have "extractSingleFieldValue (renderSegment (f # fs) final) (k @ ''='') = v"
      unfolding seg True using extractSingleFieldValue_prefix(1) [OF c(3), of k] by simp
    then show ?thesis using True f by (simp add: fieldsOf_Cons)
  next
    case False
    then have ns: "\<not> suffix k tag" using c(4) by simp
    have "\<forall>i<length (tag @ CHR ''='' # v @ [SOH]).
        \<not> occursAt (k @ ''='') ((tag @ CHR ''='' # v @ [SOH]) @ renderSegment fs final) i"
      using field_no_occurrence [OF c(1,2) assms(2) ns] by blast
    from extractSingleFieldValue_skip [OF this]
    have "extractSingleFieldValue (renderSegment (f # fs) final) (k @ ''='')
        = extractSingleFieldValue (renderSegment fs final) (k @ ''='')"
      unfolding seg .
    then show ?thesis using Cons.IH [OF rest] False f by (simp add: fieldsOf_Cons)
  qed
qed

subsection \<open>Both parsers in terms of the fields\<close>

lemma map_of_rev_once:
  "count_list (map fst fs) k \<le> 1 \<Longrightarrow> map_of (rev fs) k = map_of fs k"
proof (induction fs)
  case Nil
  show ?case by simp
next
  case (Cons f fs)
  show ?case
  proof (cases "fst f = k")
    case True
    then have "count_list (map fst fs) k = 0" using Cons.prems by simp
    then have "k \<notin> set (map fst fs)" by (simp add: count_list_0_iff)
    then have "k \<notin> fst ` set (rev fs)" by simp
    then have "map_of (rev fs) k = None" by (simp add: map_of_eq_None_iff)
    then show ?thesis using True by (simp add: map_add_def)
  next
    case False
    then have "count_list (map fst fs) k \<le> 1" using Cons.prems by simp
    from Cons.IH [OF this] False show ?thesis
      by (simp add: map_add_def split: option.splits)
  qed
qed

lemma foldl_assignField:
  "foldl (\<lambda>t f. assignField (fst f) (snd f) t) trade fs
     = trade\<lparr>EntryType := (case map_of (rev fs) ''269'' of None \<Rightarrow> EntryType trade | Some v \<Rightarrow> v),
             Price := (case map_of (rev fs) ''270'' of None \<Rightarrow> Price trade | Some v \<Rightarrow> v),
             Size := (case map_of (rev fs) ''271'' of None \<Rightarrow> Size trade | Some v \<Rightarrow> v),
             Time := (case map_of (rev fs) ''273'' of None \<Rightarrow> Time trade | Some v \<Rightarrow> v),
             Position := (case map_of (rev fs) ''290'' of None \<Rightarrow> Position trade | Some v \<Rightarrow> v),
             Aggressor := (case map_of (rev fs) ''2446'' of None \<Rightarrow> Aggressor trade
                           | Some v \<Rightarrow> getAggressorSideDesc v)\<rparr>"
proof (induction fs rule: rev_induct)
  case Nil
  show ?case by simp
next
  case (snoc f fs)
  obtain tag v where f: "f = (tag, v)" by (cases f)
  show ?case
    unfolding foldl_append foldl_Cons foldl_Nil snoc.IH
    by (simp add: f assignField_def)
qed

lemma lookup_string:
  "(case m of None \<Rightarrow> [] | Some v \<Rightarrow> getAggressorSideDesc v)
     = getAggressorSideDesc (case m of None \<Rightarrow> [] | Some v \<Rightarrow> v)"
  by (simp add: getAggressorSideDesc_def split: option.splits)

lemma plainFields_scan:
  "plainFields fs \<Longrightarrow> list_all (\<lambda>f. CHR ''='' \<notin> set (fst f) \<and> SOH \<notin> set (snd f)) fs"
  by (simp add: plainFields_def list_all_iff)

lemma plainFields_tag:
  assumes "plainFields fs" "k \<in> set knownTags"
  shows "list_all (\<lambda>f. CHR ''='' \<notin> set (fst f) \<and> CHR ''='' \<notin> set (snd f) \<and> SOH \<notin> set (snd f)
                         \<and> (suffix k (fst f) = (fst f = k))) fs"
    and "count_list (map fst fs) k \<le> 1"
  using assms by (auto simp: plainFields_def list_all_iff)

lemma extract_known:
  assumes "plainFields (fieldsOf fs final)" "k \<in> set knownTags"
  shows "extractSingleFieldValue (renderSegment fs final) (k @ ''='')
     = (case map_of (fieldsOf fs final) k of None \<Rightarrow> [] | Some v \<Rightarrow> v)"
    and "map_of (rev (fieldsOf fs final)) k = map_of (fieldsOf fs final) k"
proof -
  have "SOH \<notin> set k" using assms(2) by (auto simp: knownTags_def SOH_def)
  from extractSingleFieldValue_render [OF plainFields_tag(1) [OF assms] this]
  show "extractSingleFieldValue (renderSegment fs final) (k @ ''='')
     = (case map_of (fieldsOf fs final) k of None \<Rightarrow> [] | Some v \<Rightarrow> v)" .
  show "map_of (rev (fieldsOf fs final)) k = map_of (fieldsOf fs final) k"
    by (rule map_of_rev_once [OF plainFields_tag(2) [OF assms]])
qed

lemma scan_plainFields:
  assumes "plainFields (fieldsOf fs final)"
  shows "scanSegment (renderSegment fs final) 0
       (initTrade timestamp symbol mdReqId isSnapshot seqNum)
     = \<lparr>Timestamp = timestamp, Symbol = symbol,
        Price = extractSingleFieldValue (renderSegment fs final) ''270='',
        Size = extractSingleFieldValue (renderSegment fs final) ''271='',
        Time = extractSingleFieldValue (renderSegment fs final) ''273='',
        Aggressor = getAggressorSideDesc (extractSingleFieldValue (renderSegment fs final) ''2446=''),
        MdReqId = mdReqId,
        EntryType = extractSingleFieldValue (renderSegment fs final) ''269='',
        Position = extractSingleFieldValue (renderSegment fs final) ''290='',
        SeqNum = seqNum, IsSnapshot = isSnapshot, IsUpdate = (\<not> isSnapshot)\<rparr>"
proof -
  let ?all = "fieldsOf fs final"
  have k: "''269'' \<in> set knownTags" "''270'' \<in> set knownTags" "''271'' \<in> set knownTags"
    "''273'' \<in> set knownTags" "''290'' \<in> set knownTags" "''2446'' \<in> set knownTags"
    by (simp_all add: knownTags_def)
  note e = extract_known(1) [OF assms k(1), simplified] extract_known(1) [OF assms k(2), simplified]
    extract_known(1) [OF assms k(3), simplified] extract_known(1) [OF assms k(4), simplified]
    extract_known(1) [OF assms k(5), simplified] extract_known(1) [OF assms k(6), simplified]
  note r = extract_known(2) [OF assms k(1)] extract_known(2) [OF assms k(2)]
    extract_known(2) [OF assms k(3)] extract_known(2) [OF assms k(4)]
    extract_known(2) [OF assms k(5)] extract_known(2) [OF assms k(6)]
  have "scanSegment (renderSegment fs final) 0
        (initTrade timestamp symbol mdReqId isSnapshot seqNum)
      = foldl (\<lambda>t f. assignField (fst f) (snd f) t)
          (initTrade timestamp symbol mdReqId isSnapshot seqNum) ?all"
    using scanSegment_render [OF plainFields_scan [OF assms], of "[]"] by simp
  also have "\<dots> = (initTrade timestamp symbol mdReqId isSnapshot seqNum)
      \<lparr>EntryType := (case map_of ?all ''269'' of None \<Rightarrow> [] | Some v \<Rightarrow> v),
       Price := (case map_of ?all ''270'' of None \<Rightarrow> [] | Some v \<Rightarrow> v),
       Size := (case map_of ?all ''271'' of None \<Rightarrow> [] | Some v \<Rightarrow> v),
       Time := (case map_of ?all ''273'' of None \<Rightarrow> [] | Some v \<Rightarrow> v),
       Position := (case map_of ?all ''290'' of None \<Rightarrow> [] | Some v \<Rightarrow> v),
       Aggressor := (case map_of ?all ''2446'' of None \<Rightarrow> [] | Some v \<Rightarrow> getAggressorSideDesc v)\<rparr>"
    unfolding foldl_assignField r by (simp add: initTrade_def cong: option.case_cong)
  finally show ?thesis
    unfolding e lookup_string by (simp add: initTrade_def)
qed

subsection \<open>The two entry parsers\<close>

lemma getAggressorSideDesc_empty: "getAggressorSideDesc [] = []"
  by (simp add: getAggressorSideDesc_def)

lemma multi_pass_steps:
  "parseTradeFromSegment now segment symbol mdReqId isSnapshot seqNum entryIndex
     = (let e = extractSingleFieldValue segment ''269='';
            p = extractSingleFieldValue segment ''290=''
        in \<lparr>Timestamp = now, Symbol = symbol,
             Price = extractSingleFieldValue segment ''270='',
             Size = extractSingleFieldValue segment ''271='',
             Time = extractSingleFieldValue segment ''273='',
             Aggressor = getAggressorSideDesc (extractSingleFieldValue segment ''2446=''),
             MdReqId = mdReqId, EntryType = e,
             Position = (if p = [] \<and> (e = ''0'' \<or> e = ''1'') then Itoa (wrapInt (entryIndex + 1))
                         else p),
             SeqNum = seqNum, IsSnapshot = isSnapshot, IsUpdate = (\<not> isSnapshot)\<rparr>)"
  by (simp add: parseTradeFromSegment_def initTrade_def Let_def getAggressorSideDesc_empty)

text \<open>
  Claim C3, as amended. For every segment written as a sequence of \<open>TAG=VALUE<SOH>\<close>
  fields, the SOH after the last field optional, in which no tag and no value contains
  \<open>=\<close>, no value contains SOH, none of the six known tags occurs more than once and no
  tag ends with a known tag other than that tag itself, and for every symbol, request id,
  snapshot flag, sequence number and entry index, \<open>parseTradeFromSegment\<close> and
  \<open>parseTradeFromSegmentFast\<close> return records equal on every field except \<open>Timestamp\<close>.
\<close>

theorem parsers_agree_on_plain_fields:
  assumes "plainFields (fieldsOf fs final)"
  shows "parseTradeFromSegment now (renderSegment fs final) symbol mdReqId isSnapshot seqNum
       entryIndex
     = (parseTradeFromSegmentFast (renderSegment fs final) symbol mdReqId isSnapshot seqNum
          entryIndex timestamp)\<lparr>Timestamp := now\<rparr>"
  unfolding multi_pass_steps parseTradeFromSegmentFast_def scan_plainFields [OF assms]
  by (auto simp: Let_def)

lemma plainFields_tradeFields: "plainFields (fieldsOf tradeFields tradeFinal)"
  by (simp add: plainFields_def fieldsOf_def tradeFields_def tradeFinal_def knownTags_def SOH_def
      suffix_to_prefix)

text \<open>
  The amended property on the round-trip example: both parsers return the same trade
  entry, each with its own timestamp.
\<close>

theorem parsers_agree_on_plain_fields_witness:
  "plainFields (fieldsOf tradeFields tradeFinal)
   \<and> renderSegment tradeFields tradeFinal = ''269=2'' @ [SOH] @ ''270=50000.00'' @ [SOH]
        @ ''271=1.5'' @ [SOH] @ ''273=20250101-12:00:00'' @ [SOH] @ ''2446=1''
   \<and> parseTradeFromSegment 9 (renderSegment tradeFields tradeFinal) ''BTC-USD'' ''req-1'' False
        ''12'' 0
     = \<lparr>Timestamp = 9, Symbol = ''BTC-USD'', Price = ''50000.00'', Size = ''1.5'',
        Time = ''20250101-12:00:00'', Aggressor = ''Buy'', MdReqId = ''req-1'',
        EntryType = ''2'', Position = [], SeqNum = ''12'', IsSnapshot = False, IsUpdate = True\<rparr>
   \<and> parseTradeFromSegmentFast (renderSegment tradeFields tradeFinal) ''BTC-USD'' ''req-1'' False
        ''12'' 0 7
     = \<lparr>Timestamp = 7, Symbol = ''BTC-USD'', Price = ''50000.00'', Size = ''1.5'',
        Time = ''20250101-12:00:00'', Aggressor = ''Buy'', MdReqId = ''req-1'',
        EntryType = ''2'', Position = [], SeqNum = ''12'', IsSnapshot = False, IsUpdate = True\<rparr>"
proof -
  have r: "renderSegment tradeFields tradeFinal = ''269=2'' @ [SOH] @ ''270=50000.00'' @ [SOH]
      @ ''271=1.5'' @ [SOH] @ ''273=20250101-12:00:00'' @ [SOH] @ ''2446=1''"
    by (simp add: renderSegment_def renderField_def renderOpenField_def tradeFields_def
        tradeFinal_def)
  have f: "parseTradeFromSegmentFast (renderSegment tradeFields tradeFinal) ''BTC-USD'' ''req-1''
       False ''12'' 0 7
     = \<lparr>Timestamp = 7, Symbol = ''BTC-USD'', Price = ''50000.00'', Size = ''1.5'',
        Time = ''20250101-12:00:00'', Aggressor = ''Buy'', MdReqId = ''req-1'',
        EntryType = ''2'', Position = [], SeqNum = ''12'', IsSnapshot = False, IsUpdate = True\<rparr>"
    by code_simp
  from parsers_agree_on_plain_fields [OF plainFields_tradeFields,
      of 9 "''BTC-USD''" "''req-1''" False "''12''" 0 7]
  have "parseTradeFromSegment 9 (renderSegment tradeFields tradeFinal) ''BTC-USD'' ''req-1'' False
        ''12'' 0
     = \<lparr>Timestamp = 9, Symbol = ''BTC-USD'', Price = ''50000.00'', Size = ''1.5'',
        Time = ''20250101-12:00:00'', Aggressor = ''Buy'', MdReqId = ''req-1'',
        EntryType = ''2'', Position = [], SeqNum = ''12'', IsSnapshot = False, IsUpdate = True\<rparr>"
    unfolding f by simp
  then show ?thesis using plainFields_tradeFields r f by (intro conjI)
qed

text \<open>
  Claim C3 as stated fails. With the same clock value for both parsers, the records
  differ in \<open>Price\<close> on a segment that carries tag 270 twice (the single pass keeps the
  last value, the multi-pass parser finds the first), on a segment with a tag 1270 (the
  multi-pass parser finds \<open>270=\<close> inside \<open>1270=\<close>), and on a segment whose text value
  contains \<open>270=\<close>.
\<close>

theorem parsers_differ_on_price:
  "Price (parseTradeFromSegmentFast repeatedTagSegment ''BTC-USD'' ''req-1'' False ''12'' 0 7) = ''2''
   \<and> Price (parseTradeFromSegment 7 repeatedTagSegment ''BTC-USD'' ''req-1'' False ''12'' 0) = ''1''
   \<and> Price (parseTradeFromSegmentFast longerTagSegment ''BTC-USD'' ''req-1'' False ''12'' 0 7) = []
   \<and> Price (parseTradeFromSegment 7 longerTagSegment ''BTC-USD'' ''req-1'' False ''12'' 0) = ''9''
   \<and> Price (parseTradeFromSegmentFast textValueSegment ''BTC-USD'' ''req-1'' False ''12'' 0 7) = []
   \<and> Price (parseTradeFromSegment 7 textValueSegment ''BTC-USD'' ''req-1'' False ''12'' 0) = ''5''"
proof (intro conjI)
  show "Price (parseTradeFromSegmentFast repeatedTagSegment ''BTC-USD'' ''req-1'' False ''12'' 0 7) = ''2''"
    by code_simp
  show "Price (parseTradeFromSegment 7 repeatedTagSegment ''BTC-USD'' ''req-1'' False ''12'' 0) = ''1''"
    by code_simp
  show "Price (parseTradeFromSegmentFast longerTagSegment ''BTC-USD'' ''req-1'' False ''12'' 0 7) = []"
    by code_simp
  show "Price (parseTradeFromSegment 7 longerTagSegment ''BTC-USD'' ''req-1'' False ''12'' 0) = ''9''"
    by code_simp
  show "Price (parseTradeFromSegmentFast textValueSegment ''BTC-USD'' ''req-1'' False ''12'' 0 7) = []"
    by code_simp
  show "Price (parseTradeFromSegment 7 textValueSegment ''BTC-USD'' ''req-1'' False ''12'' 0) = ''5''"
    by code_simp
qed

end
